theory Spec2Isabelle
  imports Complex_Main "HOL-Library.Word"
begin

unbundle bit_operations_syntax

section \<open>Data model\<close>

text \<open>
  \<^verbatim>\<open>typedef uint32_t el_t; typedef twice_size_t<el_t> tw_t;\<close>
  The limb type is the 32-bit unsigned integer, the double limb the 64-bit one.
  A \<^verbatim>\<open>bui<SIZE_IN_BITS>\<close> holds the array \<^verbatim>\<open>el_t el[SIZE_IN_ELS]\<close>, least
  significant limb first; the model is the list of its limbs, and \<^verbatim>\<open>SIZE_IN_ELS\<close>
  is the length of that list. The class asserts statically that
  \<^verbatim>\<open>SIZE_IN_BITS > 0\<close>, so the list of an instance is never empty.
\<close>

type_synonym el_t = "32 word"
type_synonym tw_t = "64 word"
type_synonym bui = "el_t list"

definition EL_SIZE_IN_BITS :: nat where
  "EL_SIZE_IN_BITS = 32"

definition SIZE_IN_ELS :: "bui \<Rightarrow> nat" where
  "SIZE_IN_ELS el = length el"

definition SIZE_IN_BITS :: "bui \<Rightarrow> nat" where
  "SIZE_IN_BITS el = SIZE_IN_ELS el * EL_SIZE_IN_BITS"

text \<open>The number a magnitude stands for: the sum of \<open>limb[i] * BASE ^ i\<close>.\<close>

fun value_of :: "bui \<Rightarrow> nat" where
  "value_of [] = 0"
| "value_of (x # xs) = unat x + 2 ^ 32 * value_of xs"

text \<open>
  An \<^verbatim>\<open>assert\<close> that fails aborts the program; an integer division by zero and a
  write behind the end of a local array have no defined result; a member whose
  body the compiler rejects, or a constant expression that it cannot evaluate,
  leaves no program to run. Each is a value of the model.
\<close>

datatype error = AssertionFailed | DivisionByZero | BufferOverflow | IllFormed

text \<open>
  A native integer type \<^verbatim>\<open>INT_T\<close> is a width, the length of the word type
  \<open>'b\<close>, and a signedness, the truth value of \<^verbatim>\<open>std::is_unsigned_v<INT_T>\<close>, which the
  model passes next to each native operand. \<^verbatim>\<open>sizeof\<close> counts bytes.
\<close>

definition sizeof :: "'b::len word \<Rightarrow> nat" where
  "sizeof b = LENGTH('b) div 8"

definition sizeof_el_t :: nat where
  "sizeof_el_t = 4"

definition assert_unsigned_int_type :: "bool \<Rightarrow> error + unit" where
  "assert_unsigned_int_type is_unsigned_v =
     (if is_unsigned_v then Inr () else Inl AssertionFailed)"

section \<open>Zero tests and narrowing\<close>

definition set_zero_starting_at_el :: "nat \<Rightarrow> bui \<Rightarrow> bui" where
  "set_zero_starting_at_el START_EL_IDX el =
     fold (\<lambda>i e. e[i := 0]) [START_EL_IDX..<length el] el"

definition set_zero :: "bui \<Rightarrow> bui" where
  "set_zero el = set_zero_starting_at_el 0 el"

definition is_zero_starting_at_el :: "nat \<Rightarrow> bui \<Rightarrow> bool" where
  "is_zero_starting_at_el START_EL_IDX el =
     fold (\<lambda>i result. result \<and> el ! i = 0) [START_EL_IDX..<length el] True"

definition is_nonzero_starting_at_el :: "nat \<Rightarrow> bui \<Rightarrow> bool" where
  "is_nonzero_starting_at_el START_EL_IDX el =
     fold (\<lambda>i result. result \<or> el ! i \<noteq> 0) [START_EL_IDX..<length el] False"

definition to_el_t :: "bui \<Rightarrow> el_t" where
  "to_el_t el = el ! 0"

text \<open>
  \<^verbatim>\<open>as_uint<UINT_T>\<close> joins the lowest limbs into a native value; the source
  writes out one expression for each number of limbs joined.
\<close>

definition join_els :: "nat \<Rightarrow> bui \<Rightarrow> 'b::len word" where
  "join_els n el =
     fold (\<lambda>j r. r OR push_bit (j * EL_SIZE_IN_BITS) (ucast (el ! j))) [0..<n] 0"

definition as_uint :: "bui \<Rightarrow> 'b::len word" where
  "as_uint el =
     (let s = LENGTH('b) div 8; n = length el in
      if 1 * sizeof_el_t \<ge> s \<or> n = 1 then ucast (el ! 0)
      else if 2 * sizeof_el_t \<ge> s \<or> n = 2 then join_els 2 el
      else if 4 * sizeof_el_t \<ge> s \<or> n \<le> 4 then
        (if n = 3 then join_els 3 el else join_els 4 el)
      else if 8 * sizeof_el_t \<ge> s \<or> n \<le> 8 then
        (if n = 5 then join_els 5 el
         else if n = 6 then join_els 6 el
         else if n = 7 then join_els 7 el
         else join_els 8 el)
      else 0)"

section \<open>Division and modulo by a limb\<close>

text \<open>
  \<^verbatim>\<open>for (size_t i = SIZE_IN_ELS - 1; i != (size_t) -1; i--)\<close> visits the limbs
  from the most significant down to limb 0. \<^verbatim>\<open>operator/=\<close> returns the remainder
  next to the limbs it has rewritten. \<^verbatim>\<open>operator%\<close> is a \<^verbatim>\<open>const\<close> member; its scan
  carries the limbs along and returns them with the remainder, so that what it
  does to them can be stated.

  Both take the divisor as \<^verbatim>\<open>const el_t &b\<close>. Nothing is copied: every \<open>b\<close> in
  the body reads the limb that the reference names. That limb lies outside of
  the array \<^verbatim>\<open>el\<close> of \<^verbatim>\<open>*this\<close> (the temporary made from a literal, another
  variable) or it is \<^verbatim>\<open>el[k]\<close> itself, as in \<^verbatim>\<open>v /= v.el[k]\<close>. In
  \<^verbatim>\<open>operator/=\<close> the statement \<^verbatim>\<open>el[i] = (el_t) (tw / b)\<close> comes between the two
  reads \<^verbatim>\<open>tw / b\<close> and \<^verbatim>\<open>tw %= b\<close>, so that from round \<open>i = k\<close> on a divisor
  \<^verbatim>\<open>el[k]\<close> is read as the quotient limb stored there. A division or a modulo
  by a divisor that reads as 0 is the error \<open>DivisionByZero\<close>. \<^verbatim>\<open>operator%\<close>
  stores nothing, every read of its \<open>b\<close> gives the same limb, and its model
  takes that limb.
\<close>

datatype el_ref = Outside el_t | Own_limb nat

definition deref :: "el_ref \<Rightarrow> bui \<Rightarrow> el_t" where
  "deref b el = (case b of Outside x \<Rightarrow> x | Own_limb k \<Rightarrow> el ! k)"

definition diveq_step ::
    "el_ref \<Rightarrow> nat \<Rightarrow> error + (bui \<times> tw_t) \<Rightarrow> error + (bui \<times> tw_t)" where
  "diveq_step b i s =
     (case s of
        Inl e \<Rightarrow> Inl e
      | Inr (el, tw) \<Rightarrow>
          let tw1 = push_bit EL_SIZE_IN_BITS tw;
              tw2 = tw1 OR ucast (el ! i)
          in if deref b el = 0 then Inl DivisionByZero
             else
               let el1 = el[i := ucast (tw2 div ucast (deref b el))]
               in if deref b el1 = 0 then Inl DivisionByZero
                  else Inr (el1, tw2 mod ucast (deref b el1)))"

definition operator_diveq :: "el_ref \<Rightarrow> bui \<Rightarrow> error + (bui \<times> el_t)" where
  "operator_diveq b el =
     (case fold (diveq_step b) (rev [0..<length el]) (Inr (el, 0)) of
        Inl e \<Rightarrow> Inl e
      | Inr (el', tw) \<Rightarrow> Inr (el', ucast tw))"

definition mod_step :: "el_t \<Rightarrow> nat \<Rightarrow> bui \<times> tw_t \<Rightarrow> bui \<times> tw_t" where
  "mod_step b i s =
     (case s of (el, tw) \<Rightarrow>
        let tw1 = push_bit EL_SIZE_IN_BITS tw;
            tw2 = tw1 OR ucast (el ! i);
            tw3 = tw2 mod ucast b
        in (el, tw3))"

definition operator_mod :: "el_t \<Rightarrow> bui \<Rightarrow> error + (bui \<times> el_t)" where
  "operator_mod b el =
     (if b = 0 then Inl DivisionByZero
      else case fold (mod_step b) (rev [0..<length el]) (el, 0) of
             (el', tw) \<Rightarrow> Inr (el', ucast tw))"

section \<open>Addition, subtraction and multiplication of an unsigned native operand\<close>

text \<open>
  The operand \<open>b\<close> has the unsigned type \<^verbatim>\<open>UINT_T\<close>. An operand narrower than a
  limb is first converted to \<^verbatim>\<open>el_t\<close>; the two \<^verbatim>\<open>for\<close> statements then run on
  an operand whose size is a multiple of the limb size. \<^verbatim>\<open>carry = (el[i] < carry)\<close> stores the
  truth value as the limb 0 or 1.
\<close>

definition pluseq_step :: "'b::len word \<Rightarrow> nat \<Rightarrow> bui \<times> el_t \<Rightarrow> bui \<times> el_t" where
  "pluseq_step b i s =
     (case s of (el, carry) \<Rightarrow>
        let el1 = el[i := el ! i + carry];
            carry1 = of_bool (el1 ! i < carry);
            b_i = (ucast (drop_bit (i * EL_SIZE_IN_BITS) b) :: el_t);
            el2 = el1[i := el1 ! i + b_i];
            carry2 = carry1 OR of_bool (el2 ! i < b_i)
        in (el2, carry2))"

definition pluseq_carry_step :: "nat \<Rightarrow> bui \<times> el_t \<Rightarrow> bui \<times> el_t" where
  "pluseq_carry_step i s =
     (case s of (el, carry) \<Rightarrow>
        let el1 = el[i := el ! i + carry];
            carry1 = of_bool (el1 ! i < carry)
        in (el1, carry1))"

definition pluseq_limbs :: "'b::len word \<Rightarrow> bui \<Rightarrow> bui" where
  "pluseq_limbs b el =
     (let B_EL_COUNT = min (sizeof b div sizeof_el_t) (SIZE_IN_ELS el);
          s1 = fold (pluseq_step b) [0..<B_EL_COUNT] (el, 0);
          s2 = fold pluseq_carry_step [B_EL_COUNT..<SIZE_IN_ELS el] s1
      in fst s2)"

definition operator_pluseq_uint :: "bool \<Rightarrow> 'b::len word \<Rightarrow> bui \<Rightarrow> error + bui" where
  "operator_pluseq_uint is_unsigned_v b el =
     (case assert_unsigned_int_type is_unsigned_v of
        Inl e \<Rightarrow> Inl e
      | Inr _ \<Rightarrow>
          if sizeof b < sizeof_el_t then Inr (pluseq_limbs (ucast b :: el_t) el)
          else if sizeof b mod sizeof_el_t \<noteq> 0 then Inl AssertionFailed
          else Inr (pluseq_limbs b el))"

definition minuseq_step :: "'b::len word \<Rightarrow> nat \<Rightarrow> bui \<times> el_t \<Rightarrow> bui \<times> el_t" where
  "minuseq_step b i s =
     (case s of (el, carry) \<Rightarrow>
        let el_i_before = el ! i;
            el1 = el[i := el ! i - carry];
            carry1 = of_bool (el1 ! i > el_i_before);
            b_i = (ucast (drop_bit (i * EL_SIZE_IN_BITS) b) :: el_t);
            el_i_before2 = el1 ! i;
            el2 = el1[i := el1 ! i - b_i];
            carry2 = carry1 OR of_bool (el2 ! i > el_i_before2)
        in (el2, carry2))"

definition minuseq_carry_step :: "nat \<Rightarrow> bui \<times> el_t \<Rightarrow> bui \<times> el_t" where
  "minuseq_carry_step i s =
     (case s of (el, carry) \<Rightarrow>
        let el_i_before = el ! i;
            el1 = el[i := el ! i - carry];
            carry1 = of_bool (el1 ! i > el_i_before)
        in (el1, carry1))"

definition minuseq_limbs :: "'b::len word \<Rightarrow> bui \<Rightarrow> bui" where
  "minuseq_limbs b el =
     (let B_EL_COUNT = min (sizeof b div sizeof_el_t) (SIZE_IN_ELS el);
          s1 = fold (minuseq_step b) [0..<B_EL_COUNT] (el, 0);
          s2 = fold minuseq_carry_step [B_EL_COUNT..<SIZE_IN_ELS el] s1
      in fst s2)"

definition operator_minuseq_uint :: "bool \<Rightarrow> 'b::len word \<Rightarrow> bui \<Rightarrow> error + bui" where
  "operator_minuseq_uint is_unsigned_v b el =
     (case assert_unsigned_int_type is_unsigned_v of
        Inl e \<Rightarrow> Inl e
      | Inr _ \<Rightarrow>
          if sizeof b < sizeof_el_t then Inr (minuseq_limbs (ucast b :: el_t) el)
          else if sizeof b mod sizeof_el_t \<noteq> 0 then Inl AssertionFailed
          else Inr (minuseq_limbs b el))"

text \<open>
  Multiplication by a limb-sized operand keeps one double-limb accumulator
  \<^verbatim>\<open>tw\<close>. For a wider operand the source keeps a second accumulator \<^verbatim>\<open>ui\<close> of
  the operand's type for the upper part \<^verbatim>\<open>b >> EL_SIZE_IN_BITS\<close>; the statement
  \<^verbatim>\<open>ui += b_upper * el[i]\<close> comes after \<^verbatim>\<open>el[i] = (el_t) tw\<close> and reads the limb
  that was just stored.
\<close>

definition muleq_step_el :: "el_t \<Rightarrow> nat \<Rightarrow> bui \<times> tw_t \<Rightarrow> bui \<times> tw_t" where
  "muleq_step_el b i s =
     (case s of (el, tw) \<Rightarrow>
        let tw1 = tw + ucast (el ! i) * ucast b;
            el1 = el[i := ucast tw1];
            tw2 = drop_bit EL_SIZE_IN_BITS tw1
        in (el1, tw2))"

definition muleq_step_wide ::
    "el_t \<Rightarrow> 'b::len word \<Rightarrow> nat \<Rightarrow> bui \<times> 'b word \<times> tw_t \<Rightarrow> bui \<times> 'b word \<times> tw_t" where
  "muleq_step_wide b_0 b_upper i s =
     (case s of (el, ui, tw) \<Rightarrow>
        let tw1 = tw + ucast b_0 * ucast (el ! i);
            el1 = el[i := ucast tw1];
            tw2 = drop_bit EL_SIZE_IN_BITS tw1;
            ui1 = ui + b_upper * ucast (el1 ! i);
            tw3 = tw2 + ucast (ucast ui1 :: el_t);
            ui2 = drop_bit EL_SIZE_IN_BITS ui1
        in (el1, ui2, tw3))"

definition muleq_limbs :: "'b::len word \<Rightarrow> bui \<Rightarrow> bui" where
  "muleq_limbs b el =
     (if sizeof b = sizeof_el_t then
        fst (fold (muleq_step_el (ucast b)) [0..<SIZE_IN_ELS el] (el, 0))
      else
        let b_0 = (ucast b :: el_t);
            b_upper = drop_bit EL_SIZE_IN_BITS b
        in fst (fold (muleq_step_wide b_0 b_upper) [0..<SIZE_IN_ELS el] (el, 0, 0)))"

definition operator_muleq_uint :: "bool \<Rightarrow> 'b::len word \<Rightarrow> bui \<Rightarrow> error + bui" where
  "operator_muleq_uint is_unsigned_v b el =
     (case assert_unsigned_int_type is_unsigned_v of
        Inl e \<Rightarrow> Inl e
      | Inr _ \<Rightarrow>
          if sizeof b < sizeof_el_t then Inr (muleq_limbs (ucast b :: el_t) el)
          else if sizeof b mod sizeof_el_t \<noteq> 0 then Inl AssertionFailed
          else Inr (muleq_limbs b el))"

section \<open>The operators on a signed or unsigned native operand\<close>

text \<open>
  The public operators choose by \<^verbatim>\<open>std::is_unsigned_v<INT_T>\<close>. For a signed
  operand \<^verbatim>\<open>b >= 0\<close> and \<^verbatim>\<open>b < 0\<close> read the word as two's complement, and
  \<^verbatim>\<open>static_cast<std::make_unsigned_t<INT_T>>(-b)\<close> is the negation taken in the
  operand's width: for a type narrower than \<^verbatim>\<open>int\<close> the integer promotion makes
  the negation exact before the cast truncates it, and for \<^verbatim>\<open>int\<close> and wider the
  most negative value is the one input where the negation overflows, where the
  model takes the two's complement result.
\<close>

definition operator_pluseq :: "bool \<Rightarrow> 'b::len word \<Rightarrow> bui \<Rightarrow> error + bui" where
  "operator_pluseq is_unsigned_v b el =
     (if is_unsigned_v then operator_pluseq_uint is_unsigned_v b el
      else if 0 \<le> sint b then operator_pluseq_uint True b el
      else operator_minuseq_uint True (- b) el)"

definition operator_minuseq :: "bool \<Rightarrow> 'b::len word \<Rightarrow> bui \<Rightarrow> error + bui" where
  "operator_minuseq is_unsigned_v b el =
     (if is_unsigned_v then operator_minuseq_uint is_unsigned_v b el
      else if 0 \<le> sint b then operator_minuseq_uint True b el
      else operator_pluseq_uint True (- b) el)"

definition operator_muleq :: "bool \<Rightarrow> 'b::len word \<Rightarrow> bui \<Rightarrow> error + bui" where
  "operator_muleq is_unsigned_v b el =
     (if is_unsigned_v then operator_muleq_uint is_unsigned_v b el
      else if 0 \<le> sint b then operator_muleq_uint True b el
      else Inl AssertionFailed)"

section \<open>Comparison with a native operand\<close>

text \<open>
  Each \<^verbatim>\<open>operator_.._uint\<close> starts with \<^verbatim>\<open>assert_unsigned_int_type<UINT_T>()\<close>.
  An operand no wider than a limb is compared with limb 0, a wider one with the
  limbs joined by \<^verbatim>\<open>as_uint\<close>; the limbs above are tested for zero.
\<close>

definition operator_neq_uint :: "bool \<Rightarrow> 'b::len word \<Rightarrow> bui \<Rightarrow> error + bool" where
  "operator_neq_uint is_unsigned_v b el =
     (case assert_unsigned_int_type is_unsigned_v of
        Inl e \<Rightarrow> Inl e
      | Inr _ \<Rightarrow>
          if sizeof_el_t \<ge> sizeof b then
            (if sizeof_el_t mod sizeof b \<noteq> 0 then Inl AssertionFailed
             else Inr (to_el_t el \<noteq> ucast b \<or> is_nonzero_starting_at_el 1 el))
          else
            (if sizeof b mod sizeof_el_t \<noteq> 0 then Inl AssertionFailed
             else Inr (as_uint el \<noteq> b
                       \<or> is_nonzero_starting_at_el (sizeof b div sizeof_el_t) el)))"

definition operator_eq_uint :: "bool \<Rightarrow> 'b::len word \<Rightarrow> bui \<Rightarrow> error + bool" where
  "operator_eq_uint is_unsigned_v b el =
     (case assert_unsigned_int_type is_unsigned_v of
        Inl e \<Rightarrow> Inl e
      | Inr _ \<Rightarrow>
          if sizeof_el_t \<ge> sizeof b then
            (if sizeof_el_t mod sizeof b \<noteq> 0 then Inl AssertionFailed
             else Inr (to_el_t el = ucast b \<and> is_zero_starting_at_el 1 el))
          else
            (if sizeof b mod sizeof_el_t \<noteq> 0 then Inl AssertionFailed
             else Inr (as_uint el = b
                       \<and> is_zero_starting_at_el (sizeof b div sizeof_el_t) el)))"

definition operator_lt_uint :: "bool \<Rightarrow> 'b::len word \<Rightarrow> bui \<Rightarrow> error + bool" where
  "operator_lt_uint is_unsigned_v b el =
     (case assert_unsigned_int_type is_unsigned_v of
        Inl e \<Rightarrow> Inl e
      | Inr _ \<Rightarrow>
          if sizeof_el_t \<ge> sizeof b then
            (if sizeof_el_t mod sizeof b \<noteq> 0 then Inl AssertionFailed
             else Inr (to_el_t el < ucast b \<and> is_zero_starting_at_el 1 el))
          else
            (if sizeof b mod sizeof_el_t \<noteq> 0 then Inl AssertionFailed
             else Inr (as_uint el < b
                       \<and> is_zero_starting_at_el (sizeof b div sizeof_el_t) el)))"

definition operator_gt_uint :: "bool \<Rightarrow> 'b::len word \<Rightarrow> bui \<Rightarrow> error + bool" where
  "operator_gt_uint is_unsigned_v b el =
     (case assert_unsigned_int_type is_unsigned_v of
        Inl e \<Rightarrow> Inl e
      | Inr _ \<Rightarrow>
          if sizeof_el_t \<ge> sizeof b then
            (if sizeof_el_t mod sizeof b \<noteq> 0 then Inl AssertionFailed
             else Inr (to_el_t el > ucast b \<or> is_nonzero_starting_at_el 1 el))
          else
            (if sizeof b mod sizeof_el_t \<noteq> 0 then Inl AssertionFailed
             else Inr (as_uint el > b
                       \<or> is_nonzero_starting_at_el (sizeof b div sizeof_el_t) el)))"

definition operator_leq_uint :: "bool \<Rightarrow> 'b::len word \<Rightarrow> bui \<Rightarrow> error + bool" where
  "operator_leq_uint is_unsigned_v b el =
     (case assert_unsigned_int_type is_unsigned_v of
        Inl e \<Rightarrow> Inl e
      | Inr _ \<Rightarrow>
          if sizeof_el_t \<ge> sizeof b then
            (if sizeof_el_t mod sizeof b \<noteq> 0 then Inl AssertionFailed
             else Inr (to_el_t el \<le> ucast b \<and> is_zero_starting_at_el 1 el))
          else
            (if sizeof b mod sizeof_el_t \<noteq> 0 then Inl AssertionFailed
             else Inr (as_uint el \<le> b
                       \<and> is_zero_starting_at_el (sizeof b div sizeof_el_t) el)))"

definition operator_geq_uint :: "bool \<Rightarrow> 'b::len word \<Rightarrow> bui \<Rightarrow> error + bool" where
  "operator_geq_uint is_unsigned_v b el =
     (case assert_unsigned_int_type is_unsigned_v of
        Inl e \<Rightarrow> Inl e
      | Inr _ \<Rightarrow>
          if sizeof_el_t \<ge> sizeof b then
            (if sizeof_el_t mod sizeof b \<noteq> 0 then Inl AssertionFailed
             else Inr (to_el_t el \<ge> ucast b \<or> is_nonzero_starting_at_el 1 el))
          else
            (if sizeof b mod sizeof_el_t \<noteq> 0 then Inl AssertionFailed
             else Inr (as_uint el \<ge> b
                       \<or> is_nonzero_starting_at_el (sizeof b div sizeof_el_t) el)))"

text \<open>
  The public comparisons. \<^verbatim>\<open>operator!=\<close> and \<^verbatim>\<open>operator==\<close> convert a signed
  operand with \<^verbatim>\<open>static_cast<std::make_unsigned_t<INT_T>>(b)\<close> and call the
  unsigned routine on the converted value. The four ordering operators write
  \<^verbatim>\<open>return (b < 0) | operator_gt_uint(b);\<close> and the like: the routine is called
  on \<open>b\<close> itself, so that its \<^verbatim>\<open>UINT_T\<close> is the signed \<^verbatim>\<open>INT_T\<close>, and \<^verbatim>\<open>|\<close> and
  \<^verbatim>\<open>&\<close> evaluate both operands.
\<close>

definition operator_neq :: "bool \<Rightarrow> 'b::len word \<Rightarrow> bui \<Rightarrow> error + bool" where
  "operator_neq is_unsigned_v b el =
     (if is_unsigned_v then operator_neq_uint True b el
      else case operator_neq_uint True b el of
             Inl e \<Rightarrow> Inl e
           | Inr r \<Rightarrow> Inr (sint b < 0 \<or> r))"

definition operator_eq :: "bool \<Rightarrow> 'b::len word \<Rightarrow> bui \<Rightarrow> error + bool" where
  "operator_eq is_unsigned_v b el =
     (if is_unsigned_v then operator_eq_uint is_unsigned_v b el
      else case operator_eq_uint True b el of
             Inl e \<Rightarrow> Inl e
           | Inr r \<Rightarrow> Inr (0 \<le> sint b \<and> r))"

definition operator_gt :: "bool \<Rightarrow> 'b::len word \<Rightarrow> bui \<Rightarrow> error + bool" where
  "operator_gt is_unsigned_v b el =
     (if is_unsigned_v then operator_gt_uint is_unsigned_v b el
      else case operator_gt_uint is_unsigned_v b el of
             Inl e \<Rightarrow> Inl e
           | Inr r \<Rightarrow> Inr (sint b < 0 \<or> r))"

definition operator_lt :: "bool \<Rightarrow> 'b::len word \<Rightarrow> bui \<Rightarrow> error + bool" where
  "operator_lt is_unsigned_v b el =
     (if is_unsigned_v then operator_lt_uint is_unsigned_v b el
      else case operator_lt_uint is_unsigned_v b el of
             Inl e \<Rightarrow> Inl e
           | Inr r \<Rightarrow> Inr (0 \<le> sint b \<and> r))"

definition operator_geq :: "bool \<Rightarrow> 'b::len word \<Rightarrow> bui \<Rightarrow> error + bool" where
  "operator_geq is_unsigned_v b el =
     (if is_unsigned_v then operator_geq_uint is_unsigned_v b el
      else case operator_geq_uint is_unsigned_v b el of
             Inl e \<Rightarrow> Inl e
           | Inr r \<Rightarrow> Inr (sint b < 0 \<or> r))"

definition operator_leq :: "bool \<Rightarrow> 'b::len word \<Rightarrow> bui \<Rightarrow> error + bool" where
  "operator_leq is_unsigned_v b el =
     (if is_unsigned_v then operator_leq_uint is_unsigned_v b el
      else case operator_leq_uint is_unsigned_v b el of
             Inl e \<Rightarrow> Inl e
           | Inr r \<Rightarrow> Inr (0 \<le> sint b \<and> r))"

section \<open>Shifts\<close>

text \<open>
  \<^verbatim>\<open>loshift_bits<WIDTH>\<close> asserts statically that \<^verbatim>\<open>WIDTH < EL_SIZE_IN_BITS\<close>.
  \<^verbatim>\<open>loshift_1el\<close> moves every limb one index down and clears the top limb.
\<close>

definition loshift_bits_step :: "nat \<Rightarrow> nat \<Rightarrow> bui \<Rightarrow> bui" where
  "loshift_bits_step WIDTH i el =
     (let el1 = el[i - 1 := el ! (i - 1) OR push_bit (EL_SIZE_IN_BITS - WIDTH) (el ! i)]
      in el1[i := drop_bit WIDTH (el1 ! i)])"

definition loshift_bits :: "nat \<Rightarrow> bui \<Rightarrow> bui" where
  "loshift_bits WIDTH el =
     fold (loshift_bits_step WIDTH) [1..<SIZE_IN_ELS el] (el[0 := drop_bit WIDTH (el ! 0)])"

definition loshift_1el :: "bui \<Rightarrow> bui" where
  "loshift_1el el =
     (fold (\<lambda>i e. e[i := e ! (i + 1)]) [0..<SIZE_IN_ELS el - 1] el)[SIZE_IN_ELS el - 1 := 0]"

section \<open>Bit length\<close>

text \<open>
  \<^verbatim>\<open>__builtin_clz\<close> is the compiler's count of leading zero bits, taken here as
  the number of zero bits above the highest set bit. The compiler leaves the
  result for 0 open; the count below gives the width there.

  For a type of one or two bytes \<^verbatim>\<open>wrapped_builtin_clz\<close> converts with
  \<^verbatim>\<open>(unsigned int) x\<close>, which keeps the value of an unsigned \<open>x\<close> and extends
  the sign bit of a signed one; for the wider types the argument keeps its
  bits.
\<close>

fun clz_from :: "nat \<Rightarrow> 'a::len word \<Rightarrow> nat" where
  "clz_from 0 x = 0"
| "clz_from (Suc n) x = (if bit x n then 0 else Suc (clz_from n x))"

definition builtin_clz :: "'a::len word \<Rightarrow> nat" where
  "builtin_clz x = clz_from LENGTH('a) x"

definition to_unsigned_int :: "bool \<Rightarrow> 'a::len word \<Rightarrow> 32 word" where
  "to_unsigned_int is_unsigned_v x = (if is_unsigned_v then ucast x else scast x)"

definition wrapped_builtin_clz :: "bool \<Rightarrow> 'a::len word \<Rightarrow> int" where
  "wrapped_builtin_clz is_unsigned_v x =
     (if sizeof x = 1 then int (builtin_clz (to_unsigned_int is_unsigned_v x)) - 24
      else if sizeof x = 2 then int (builtin_clz (to_unsigned_int is_unsigned_v x)) - 16
      else if sizeof x = 4 then int (builtin_clz (ucast x :: 32 word))
      else if sizeof x = 8 then int (builtin_clz (ucast x :: 64 word))
      else 0)"

definition bitlen :: "bool \<Rightarrow> 'a::len word \<Rightarrow> int" where
  "bitlen is_unsigned_v x =
     (if x = 0 then int (sizeof x * 8)
      else int (sizeof x * 8) - wrapped_builtin_clz is_unsigned_v x)"

text \<open>
  The member \<^verbatim>\<open>size_t bitlen() const\<close> of \<^verbatim>\<open>bui\<close> is written as a scan from the
  top limb down that returns \<^verbatim>\<open>i * EL_SIZE_IN_BITS + bitlen(el[i])\<close> at the first
  nonzero limb. Inside the class the name \<^verbatim>\<open>bitlen\<close> is looked up in the scope
  of the class first; there it finds this member, which takes no argument, and
  the search ends before it reaches the function template
  \<^verbatim>\<open>bitlen(const INT_T &x)\<close> of the enclosing namespace. The argument
  \<^verbatim>\<open>el[i]\<close> is a \<^verbatim>\<open>uint32_t\<close>, for which argument-dependent lookup adds no
  candidate. The call \<^verbatim>\<open>bitlen(el[i])\<close> passes one argument to a function of
  none: the compiler rejects the member wherever it is instantiated, for every
  size and every value, and there is no scan to run.
\<close>

definition bui_bitlen :: "bui \<Rightarrow> error + nat" where
  "bui_bitlen el = Inl IllFormed"

section \<open>Decimal strings\<close>

text \<open>
  A \<^verbatim>\<open>double\<close> is a binary floating-point number of 53 significant bits. The
  model writes the doubles that occur as the rational numbers they are, and an
  operation on doubles as the exact operation followed by rounding to 53
  significant bits, to the nearest such number and to the one with an even last
  bit when two are equally near. All doubles that occur here are whole
  multiples of \<open>2 ^ - 54\<close> and far from the least and the greatest
  \<^verbatim>\<open>double\<close>, so that the rounding is the rounding of a natural number, the
  numerator over \<open>2 ^ 54\<close> or the number itself.
\<close>

type_synonym double = rat

fun significant_bits :: "nat \<Rightarrow> nat" where
  "significant_bits n = (if n = 0 then 0 else Suc (significant_bits (n div 2)))"

definition round_to_double :: "nat \<Rightarrow> nat" where
  "round_to_double p =
     (let s = significant_bits p - 53;
          q = p div 2 ^ s;
          r = p mod 2 ^ s
      in if 2 ^ s < 2 * r \<or> (2 * r = 2 ^ s \<and> odd q) then (q + 1) * 2 ^ s else q * 2 ^ s)"

text \<open>
  \<^verbatim>\<open>ceil_constexpr\<close> truncates towards zero with \<^verbatim>\<open>static_cast<int32_t>(d)\<close> and
  adds one to a positive argument that is not whole. The cast has a result
  only if the truncated number is an \<^verbatim>\<open>int32_t\<close>, and so has the addition. The
  function is called in the initialiser of a \<^verbatim>\<open>constexpr\<close> variable, where an
  evaluation without a result is rejected by the compiler.
\<close>

definition ceil_constexpr :: "double \<Rightarrow> error + int" where
  "ceil_constexpr d =
     (if d \<le> - 2147483649 \<or> 2147483648 \<le> d then Inl IllFormed
      else
        let i = (if 0 \<le> d then \<lfloor>d\<rfloor> else \<lceil>d\<rceil>)
        in if of_int i = d then Inr i
           else if d > 0 then (if i = 2147483647 then Inl IllFormed else Inr (i + 1))
           else Inr i)"

text \<open>
  \<^verbatim>\<open>constexpr double LOG_BASE10_2 = 0.301029995663981195; // constexpr std::log10(2.0);\<close>
  The constant is the \<^verbatim>\<open>double\<close> nearest to the decimal literal, which is
  \<open>5422874305198591 / 2 ^ 54\<close> (\<^verbatim>\<open>0x1.34413509f79ffp-2\<close>).

  \<^verbatim>\<open>constexpr int32_t MAX_DIGITS = ceil_constexpr(UINT_SIZE_IN_BITS * LOG_BASE10_2);\<close>
  The product converts the \<^verbatim>\<open>size_t\<close> to \<^verbatim>\<open>double\<close> and multiplies two doubles;
  each of the two steps rounds.
\<close>

definition LOG_BASE10_2_numerator :: nat where
  "LOG_BASE10_2_numerator = 5422874305198591"

definition LOG_BASE10_2 :: double where
  "LOG_BASE10_2 = of_nat LOG_BASE10_2_numerator / 2 ^ 54"

definition times_LOG_BASE10_2 :: "nat \<Rightarrow> double" where
  "times_LOG_BASE10_2 UINT_SIZE_IN_BITS =
     of_nat (round_to_double (round_to_double UINT_SIZE_IN_BITS * LOG_BASE10_2_numerator))
       / 2 ^ 54"

definition MAX_DIGITS :: "nat \<Rightarrow> error + int" where
  "MAX_DIGITS UINT_SIZE_IN_BITS = ceil_constexpr (times_LOG_BASE10_2 UINT_SIZE_IN_BITS)"

text \<open>
  \<^verbatim>\<open>uint_to_string\<close> on a \<^verbatim>\<open>bui\<close>: the \<^verbatim>\<open>do .. while (tmp != 0)\<close> loop writes
  one digit into \<^verbatim>\<open>char result[MAX_DIGITS + 1]\<close> in each round. The buffer is a
  list of that length, and a write at an index that is not below its length is
  the error \<open>BufferOverflow\<close>. \<^verbatim>\<open>tmp % 10\<close> and \<^verbatim>\<open>tmp /= 10\<close> are the limb
  operators, their divisor the temporary \<^verbatim>\<open>el_t\<close> made from the \<^verbatim>\<open>int\<close> 10;
  \<^verbatim>\<open>tmp != 0\<close> is \<^verbatim>\<open>operator!=\<close> on the \<^verbatim>\<open>int\<close> 0. The bound of the array
  is the constant expression \<^verbatim>\<open>MAX_DIGITS + 1\<close>, an addition of \<^verbatim>\<open>int\<close>.
\<close>

function uint_to_string_loop :: "bui \<Rightarrow> nat \<Rightarrow> string \<Rightarrow> error + (string \<times> nat)" where
  "uint_to_string_loop tmp i result =
     (if length result \<le> i then Inl BufferOverflow
      else case operator_mod 10 tmp of
        Inl e \<Rightarrow> Inl e
      | Inr (_, r) \<Rightarrow>
          (case operator_diveq (Outside 10) tmp of
             Inl e \<Rightarrow> Inl e
           | Inr (tmp1, _) \<Rightarrow>
               (case operator_neq False (0 :: 32 word) tmp1 of
                  Inl e \<Rightarrow> Inl e
                | Inr nonzero \<Rightarrow>
                    if nonzero
                    then uint_to_string_loop tmp1 (i + 1)
                           (result[i := char_of (of_char (CHR ''0'') + unat r)])
                    else Inr (result[i := char_of (of_char (CHR ''0'') + unat r)], i + 1))))"
  by pat_completeness auto
termination
  by (relation "measure (\<lambda>(tmp, i, result). length result - i)") auto

definition uint_to_string_buf :: "nat \<Rightarrow> bui \<Rightarrow> error + string" where
  "uint_to_string_buf max_digits x =
     (case uint_to_string_loop x 0 (replicate (max_digits + 1) (CHR 0x00)) of
        Inl e \<Rightarrow> Inl e
      | Inr (result, i) \<Rightarrow>
          if length result \<le> i then Inl BufferOverflow
          else
            let result1 = result[i := CHR 0x00];
                result2 = rev (take i result1) @ drop i result1
            in Inr (takeWhile (\<lambda>c. c \<noteq> CHR 0x00) result2))"

definition uint_to_string :: "bui \<Rightarrow> error + string" where
  "uint_to_string x =
     (case MAX_DIGITS (SIZE_IN_BITS x) of
        Inl e \<Rightarrow> Inl e
      | Inr max_digits \<Rightarrow>
          if max_digits = 2147483647 then Inl IllFormed
          else uint_to_string_buf (nat max_digits) x)"

definition str :: "bui \<Rightarrow> error + string" where
  "str x = uint_to_string x"

text \<open>
  \<^verbatim>\<open>set_from_str\<close> reads the characters up to the terminating zero. Each round
  asserts that the character is a decimal digit, multiplies by the \<^verbatim>\<open>int\<close> 10 and
  adds the digit as an \<^verbatim>\<open>el_t\<close>.
\<close>

definition set_from_str_step :: "char \<Rightarrow> error + bui \<Rightarrow> error + bui" where
  "set_from_str_step c s =
     (case s of
        Inl e \<Rightarrow> Inl e
      | Inr el \<Rightarrow>
          if \<not> (of_char (CHR ''0'') \<le> (of_char c :: nat)) then Inl AssertionFailed
          else if \<not> ((of_char c :: nat) \<le> of_char (CHR ''9'')) then Inl AssertionFailed
          else
            (case operator_muleq False (10 :: 32 word) el of
               Inl e \<Rightarrow> Inl e
             | Inr el1 \<Rightarrow>
                 operator_pluseq True
                   (of_nat (of_char c - of_char (CHR ''0'')) :: el_t) el1))"

definition set_from_str :: "string \<Rightarrow> bui \<Rightarrow> error + bui" where
  "set_from_str s el =
     fold set_from_str_step (takeWhile (\<lambda>c. c \<noteq> CHR 0x00) s) (Inr (set_zero el))"

text \<open>
  \<^verbatim>\<open>set_from_str\<close> is a private member. The class offers two ways from a
  string to a magnitude, and the compiler rejects both where they are used.

  The constructor \<^verbatim>\<open>bui(const char *value)\<close> has the body
  \<^verbatim>\<open>this->set(value);\<close>. \<^verbatim>\<open>set\<close> is the member template for a native integer
  \<^verbatim>\<open>INT_T\<close>, here \<^verbatim>\<open>const char *\<close>: both branches of its \<^verbatim>\<open>if\<close> are compiled,
  \<^verbatim>\<open>std::make_unsigned_t<const char *>\<close> names no type,
  \<^verbatim>\<open>assert_unsigned_int_type\<close> asserts statically that the type is integral, and
  \<^verbatim>\<open>return set_uint(value);\<close> returns the \<^verbatim>\<open>void\<close> of \<^verbatim>\<open>set_uint\<close> where a
  \<^verbatim>\<open>bui &\<close> is due. No path through the constructor reaches \<^verbatim>\<open>set_from_str\<close>.

  \<^verbatim>\<open>constexpr bui& operator=(const char *str) { set_from_str(str); }\<close> calls the
  parser, but is a \<^verbatim>\<open>constexpr\<close> function that returns a reference and has no
  \<^verbatim>\<open>return\<close> statement.
\<close>

definition bui_from_str :: "string \<Rightarrow> error + bui" where
  "bui_from_str s = Inl IllFormed"

definition operator_assign_str :: "string \<Rightarrow> bui \<Rightarrow> error + bui" where
  "operator_assign_str s el = Inl IllFormed"

section \<open>Decimal notation\<close>

text \<open>
  The reference that the rendering and the parsing loop are compared with: the
  decimal digits of a number as characters, least significant digit first,
  and the number that a list of digit characters in that order denotes.
\<close>

fun decimal_digits_lsf :: "nat \<Rightarrow> string" where
  "decimal_digits_lsf v =
     char_of (of_char (CHR ''0'') + v mod 10)
       # (if v div 10 = 0 then [] else decimal_digits_lsf (v div 10))"

fun lsf_value :: "string \<Rightarrow> nat" where
  "lsf_value [] = 0"
| "lsf_value (c # cs) = (of_char c - of_char (CHR ''0'')) + 10 * lsf_value cs"

section \<open>The value of a limb list; division by a limb\<close>

lemma value_of_append:
  "value_of (xs @ ys) = value_of xs + 2 ^ (32 * length xs) * value_of ys"
  by (induction xs) (simp_all add: algebra_simps power_add)

lemma value_of_lt: "value_of xs < 2 ^ (32 * length xs)"
proof (induction xs)
  case Nil
  then show ?case by simp
next
  case (Cons x xs)
  have "unat x < 2 ^ 32" using unsigned_less [of x] by simp
  moreover have "value_of xs + 1 \<le> 2 ^ (32 * length xs)" using Cons by simp
  then have "2 ^ 32 * (value_of xs + 1) \<le> 2 ^ 32 * 2 ^ (32 * length xs)"
    by (rule mult_le_mono2)
  ultimately show ?case by (simp add: power_add)
qed

lemma unat_el_lt: "unat (x :: el_t) < 2 ^ 32"
  using unsigned_less [of x] by simp

lemma unat_ucast_el_tw: "unat (ucast (x :: el_t) :: tw_t) = unat x"
  by (simp add: unsigned_ucast_eq take_bit_nat_eq_self unat_el_lt order_less_trans [OF unat_el_lt])

lemma unat_ucast_tw_el: "unat (tw :: tw_t) < 2 ^ 32 \<Longrightarrow> unat (ucast tw :: el_t) = unat tw"
  by (simp add: unsigned_ucast_eq take_bit_nat_eq_self)

lemma shift_or_limb:
  fixes tw :: tw_t and x :: el_t
  assumes "unat tw < 2 ^ 32"
  shows "unat (push_bit 32 tw OR ucast x) = unat tw * 2 ^ 32 + unat x"
proof -
  have eq: "push_bit 32 tw OR ucast x = push_bit 32 tw + ucast x"
    by (rule disjunctive_add_eq_or [symmetric], rule bit_eqI)
       (auto simp add: bit_simps dest: bit_imp_le_length)
  have "unat tw * 2 ^ 32 + 2 ^ 32 \<le> 2 ^ 32 * 2 ^ 32"
    using assms by simp
  then have lt: "unat tw * 2 ^ 32 + unat x < 2 ^ 64"
    using unat_el_lt [of x] by simp
  have "unat (push_bit 32 tw) = take_bit 64 (push_bit 32 (unat tw))"
    by (simp add: unsigned_push_bit_eq)
  also have "\<dots> = unat tw * 2 ^ 32"
    using lt by (simp add: take_bit_nat_eq_self push_bit_eq_mult)
  finally have p: "unat (push_bit 32 tw) = unat tw * 2 ^ 32" .
  show ?thesis
    unfolding eq using lt p unat_ucast_el_tw [of x]
    by (simp add: unat_word_ariths)
qed

lemma diveq_step_eq:
  assumes "b \<noteq> 0" and "unat tw < unat b"
  shows "\<exists>q r. diveq_step (Outside b) i (Inr (el, tw)) = Inr (el[i := q], r)
           \<and> unat q = (unat tw * 2 ^ 32 + unat (el ! i)) div unat b
           \<and> unat r = (unat tw * 2 ^ 32 + unat (el ! i)) mod unat b"
proof -
  define t where "t = push_bit 32 tw OR (ucast (el ! i) :: tw_t)"
  have tw: "unat tw < 2 ^ 32"
    using assms(2) unat_el_lt [of b] by simp
  have t: "unat t = unat tw * 2 ^ 32 + unat (el ! i)"
    unfolding t_def by (rule shift_or_limb [OF tw])
  have b: "unat (ucast b :: tw_t) = unat b"
    by (rule unat_ucast_el_tw)
  have "unat tw + 1 \<le> unat b" using assms(2) by simp
  then have "(unat tw + 1) * 2 ^ 32 \<le> unat b * 2 ^ 32"
    by (rule mult_le_mono1)
  then have "unat t < unat b * 2 ^ 32"
    using t unat_el_lt [of "el ! i"] by simp
  then have "unat t div unat b < 2 ^ 32"
    by (simp add: less_mult_imp_div_less)
  then have q: "unat (ucast (t div ucast b) :: el_t) = unat t div unat b"
    by (simp add: unat_ucast_tw_el unat_div b)
  have r: "unat (t mod ucast b) = unat t mod unat b"
    by (simp add: unat_mod b)
  have "diveq_step (Outside b) i (Inr (el, tw))
      = Inr (el[i := ucast (t div ucast b)], t mod ucast b)"
    using assms(1) by (simp add: diveq_step_def deref_def t_def Let_def EL_SIZE_IN_BITS_def)
  then show ?thesis
    using q r t by metis
qed

lemma take_Suc_value:
  "k < length el \<Longrightarrow>
     value_of (take (Suc k) el) = value_of (take k el) + 2 ^ (32 * k) * unat (el ! k)"
  by (simp add: take_Suc_conv_app_nth value_of_append)

lemma diveq_fold:
  assumes "b \<noteq> 0"
  shows "unat tw < unat b \<Longrightarrow> k \<le> length el \<Longrightarrow>
     \<exists>el' tw'. fold (diveq_step (Outside b)) (rev [0..<k]) (Inr (el, tw)) = Inr (el', tw') \<and>
        length el' = length el \<and> drop k el' = drop k el \<and>
        value_of (take k el') = (unat tw * 2 ^ (32 * k) + value_of (take k el)) div unat b \<and>
        unat tw' = (unat tw * 2 ^ (32 * k) + value_of (take k el)) mod unat b"
proof (induction k arbitrary: el tw)
  case 0
  then show ?case by simp
next
  case (Suc k)
  obtain q r where st: "diveq_step (Outside b) k (Inr (el, tw)) = Inr (el[k := q], r)"
    and q: "unat q = (unat tw * 2 ^ 32 + unat (el ! k)) div unat b"
    and r: "unat r = (unat tw * 2 ^ 32 + unat (el ! k)) mod unat b"
    using diveq_step_eq [OF assms Suc.prems(1)] by blast
  have bpos: "0 < unat b" using assms by (simp add: unat_gt_0)
  have rlt: "unat r < unat b" using r bpos by simp
  have k: "k < length el" using Suc.prems(2) by simp
  have "\<exists>el' tw'. fold (diveq_step (Outside b)) (rev [0..<k]) (Inr (el[k := q], r))
          = Inr (el', tw')
      \<and> length el' = length el
      \<and> drop k el' = drop k (el[k := q])
      \<and> value_of (take k el') = (unat r * 2 ^ (32 * k) + value_of (take k el)) div unat b
      \<and> unat tw' = (unat r * 2 ^ (32 * k) + value_of (take k el)) mod unat b"
    using Suc.IH [OF rlt, of "el[k := q]"] k by simp
  then obtain el' tw'
    where f: "fold (diveq_step (Outside b)) (rev [0..<k]) (Inr (el[k := q], r)) = Inr (el', tw')"
    and len: "length el' = length el"
    and dr: "drop k el' = drop k (el[k := q])"
    and v: "value_of (take k el') = (unat r * 2 ^ (32 * k) + value_of (take k el)) div unat b"
    and m: "unat tw' = (unat r * 2 ^ (32 * k) + value_of (take k el)) mod unat b"
    by blast
  have "el' ! k = hd (drop k el')" using k len by (simp add: hd_drop_conv_nth)
  also have "\<dots> = q" using k by (simp add: dr hd_drop_conv_nth)
  finally have nk: "el' ! k = q" .
  have "drop (Suc k) el' = drop 1 (drop k el')" by simp
  also have "\<dots> = drop (Suc k) (el[k := q])" by (simp add: dr)
  also have "\<dots> = drop (Suc k) el" by (rule drop_update_cancel) simp
  finally have dr': "drop (Suc k) el' = drop (Suc k) el" .
  define P where "P = (2::nat) ^ (32 * k)"
  define L where "L = value_of (take k el)"
  have split: "unat tw * 2 ^ (32 * Suc k) + value_of (take (Suc k) el)
      = unat q * P * unat b + (unat r * P + L)"
  proof -
    have "unat tw * 2 ^ (32 * Suc k) + value_of (take (Suc k) el)
        = (unat tw * 2 ^ 32 + unat (el ! k)) * P + L"
      using k by (simp add: take_Suc_value P_def L_def power_add algebra_simps)
    also have "unat tw * 2 ^ 32 + unat (el ! k) = unat q * unat b + unat r"
      using q r by simp
    finally show ?thesis by (simp add: algebra_simps)
  qed
  have v': "value_of (take (Suc k) el') = unat q * P + (unat r * P + L) div unat b"
    using k len nk v by (simp add: take_Suc_value P_def L_def)
  have "fold (diveq_step (Outside b)) (rev [0..<Suc k]) (Inr (el, tw)) = Inr (el', tw')"
    using st f by simp
  moreover have "value_of (take (Suc k) el')
      = (unat tw * 2 ^ (32 * Suc k) + value_of (take (Suc k) el)) div unat b"
    unfolding split v' using bpos by simp
  moreover have "unat tw'
      = (unat tw * 2 ^ (32 * Suc k) + value_of (take (Suc k) el)) mod unat b"
    unfolding split using m by (simp add: P_def L_def)
  ultimately show ?case using len dr' by blast
qed

lemma operator_diveq_correct:
  assumes "b \<noteq> 0"
  shows "\<exists>el' r. operator_diveq (Outside b) el = Inr (el', r) \<and> length el' = length el
     \<and> value_of el' = value_of el div unat b \<and> unat r = value_of el mod unat b"
proof -
  have bpos: "0 < unat b" using assms by (simp add: unat_gt_0)
  have "\<exists>el' tw'. fold (diveq_step (Outside b)) (rev [0..<length el]) (Inr (el, 0))
          = Inr (el', tw')
      \<and> length el' = length el
      \<and> value_of (take (length el) el') = value_of el div unat b
      \<and> unat tw' = value_of el mod unat b"
    using diveq_fold [OF assms, of 0 "length el" el] bpos by auto
  then obtain el' tw'
    where f: "fold (diveq_step (Outside b)) (rev [0..<length el]) (Inr (el, 0)) = Inr (el', tw')"
    and len: "length el' = length el"
    and v0: "value_of (take (length el) el') = value_of el div unat b"
    and m: "unat tw' = value_of el mod unat b"
    by blast
  have v: "value_of el' = value_of el div unat b"
    using v0 len by simp
  have "unat tw' < unat b" using m bpos by simp
  then have "unat tw' < 2 ^ 32" using unat_el_lt [of b] by simp
  then have "unat (ucast tw' :: el_t) = value_of el mod unat b"
    using m by (simp add: unat_ucast_tw_el)
  then show ?thesis
    using assms f len v by (simp add: operator_diveq_def)
qed

section \<open>Modulo by a limb; wrap-around of a limb\<close>

lemma mod_step_eq:
  assumes "b \<noteq> 0" and "unat tw < unat b"
  shows "\<exists>r. mod_step b i (el, tw) = (el, r)
           \<and> unat r = (unat tw * 2 ^ 32 + unat (el ! i)) mod unat b"
proof -
  define t where "t = push_bit 32 tw OR (ucast (el ! i) :: tw_t)"
  have tw: "unat tw < 2 ^ 32"
    using assms(2) unat_el_lt [of b] by simp
  have t: "unat t = unat tw * 2 ^ 32 + unat (el ! i)"
    unfolding t_def by (rule shift_or_limb [OF tw])
  have r: "unat (t mod ucast b) = unat t mod unat b"
    by (simp add: unat_mod unat_ucast_el_tw)
  have "mod_step b i (el, tw) = (el, t mod ucast b)"
    by (simp add: mod_step_def t_def Let_def EL_SIZE_IN_BITS_def)
  then show ?thesis
    using r t by metis
qed

lemma mod_fold:
  assumes "b \<noteq> 0"
  shows "unat tw < unat b \<Longrightarrow> k \<le> length el \<Longrightarrow>
     (case fold (mod_step b) (rev [0..<k]) (el, tw) of (el', tw') \<Rightarrow>
        el' = el \<and>
        unat tw' = (unat tw * 2 ^ (32 * k) + value_of (take k el)) mod unat b)"
proof (induction k arbitrary: tw)
  case 0
  then show ?case by simp
next
  case (Suc k)
  obtain r where st: "mod_step b k (el, tw) = (el, r)"
    and r: "unat r = (unat tw * 2 ^ 32 + unat (el ! k)) mod unat b"
    using mod_step_eq [OF assms Suc.prems(1)] by blast
  have bpos: "0 < unat b" using assms by (simp add: unat_gt_0)
  have rlt: "unat r < unat b" using r bpos by simp
  obtain el' tw' where f: "fold (mod_step b) (rev [0..<k]) (el, r) = (el', tw')"
    by (cases "fold (mod_step b) (rev [0..<k]) (el, r)")
  have k: "k < length el" using Suc.prems(2) by simp
  from Suc.IH [OF rlt] f k
  have same: "el' = el"
    and m: "unat tw' = (unat r * 2 ^ (32 * k) + value_of (take k el)) mod unat b"
    by simp_all
  define P where "P = (2::nat) ^ (32 * k)"
  define L where "L = value_of (take k el)"
  define q where "q = (unat tw * 2 ^ 32 + unat (el ! k)) div unat b"
  have split: "unat tw * 2 ^ (32 * Suc k) + value_of (take (Suc k) el)
      = q * P * unat b + (unat r * P + L)"
  proof -
    have "unat tw * 2 ^ (32 * Suc k) + value_of (take (Suc k) el)
        = (unat tw * 2 ^ 32 + unat (el ! k)) * P + L"
      using k by (simp add: take_Suc_value P_def L_def power_add algebra_simps)
    also have "unat tw * 2 ^ 32 + unat (el ! k) = q * unat b + unat r"
      using r by (simp add: q_def)
    finally show ?thesis by (simp add: algebra_simps)
  qed
  have "fold (mod_step b) (rev [0..<Suc k]) (el, tw) = (el', tw')"
    using st f by simp
  moreover have "unat tw'
      = (unat tw * 2 ^ (32 * Suc k) + value_of (take (Suc k) el)) mod unat b"
    unfolding split using m by (simp add: P_def L_def)
  ultimately show ?case using same by simp
qed

lemma operator_mod_correct:
  assumes "b \<noteq> 0"
  shows "\<exists>r. operator_mod b el = Inr (el, r) \<and> unat r = value_of el mod unat b"
proof -
  obtain el' tw' where f: "fold (mod_step b) (rev [0..<length el]) (el, 0) = (el', tw')"
    by (cases "fold (mod_step b) (rev [0..<length el]) (el, 0)")
  have bpos: "0 < unat b" using assms by (simp add: unat_gt_0)
  have "el' = el \<and> unat tw' = value_of el mod unat b"
    using mod_fold [OF assms, of 0 "length el" el] f bpos by auto
  then have same: "el' = el" and m: "unat tw' = value_of el mod unat b"
    by blast+
  have "unat tw' < unat b" using m bpos by simp
  then have "unat tw' < 2 ^ 32" using unat_el_lt [of b] by simp
  then have "unat (ucast tw' :: el_t) = value_of el mod unat b"
    using m by (simp add: unat_ucast_tw_el)
  then show ?thesis
    using assms f same by (simp add: operator_mod_def)
qed

lemma value_of_update:
  "i < length el \<Longrightarrow>
     value_of (el[i := w]) + 2 ^ (32 * i) * unat (el ! i) = value_of el + 2 ^ (32 * i) * unat w"
proof (induction el arbitrary: i)
  case Nil
  then show ?case by simp
next
  case (Cons x xs)
  show ?case
  proof (cases i)
    case 0
    then show ?thesis by simp
  next
    case (Suc j)
    then have "j < length xs" using Cons.prems by simp
    from Cons.IH [OF this]
    have "2 ^ 32 * (value_of (xs[j := w]) + 2 ^ (32 * j) * unat (xs ! j))
        = 2 ^ 32 * (value_of xs + 2 ^ (32 * j) * unat w)"
      by simp
    then show ?thesis using Suc by (simp add: algebra_simps power_add)
  qed
qed

lemma add_wraps:
  fixes y b :: el_t
  shows "unat (y + b) + 2 ^ 32 * unat (of_bool (y + b < b) :: el_t) = unat y + unat b"
  using unat_el_lt [of y] unat_el_lt [of b]
  by (auto simp add: word_less_nat_alt unat_plus_if')

lemma carry_test_previous:
  fixes y b :: el_t
  shows "(y + b < b) = (y + b < y)"
  using unat_el_lt [of y] unat_el_lt [of b]
  by (auto simp add: word_less_nat_alt unat_plus_if')

lemma sub_wraps:
  fixes y b :: el_t
  shows "unat (y - b) + unat b = unat y + 2 ^ 32 * unat (of_bool (y - b > y) :: el_t)"
  using unat_el_lt [of y] unat_el_lt [of b]
  by (auto simp add: word_less_nat_alt unat_sub_if')

lemma unat_of_bool_or:
  "\<not> (P \<and> Q) \<Longrightarrow> unat ((of_bool P :: el_t) OR of_bool Q) = unat (of_bool P :: el_t) + unat (of_bool Q :: el_t)"
  by (cases P; cases Q) simp_all

lemma unat_of_bool_or_le: "unat ((of_bool P :: el_t) OR of_bool Q) \<le> 1"
  by (cases P; cases Q) simp_all

section \<open>Add-assign\<close>

lemma unat_slice:
  fixes b :: "'b::len word"
  shows "unat (ucast (drop_bit (i * 32) b) :: el_t) = unat b div 2 ^ (32 * i) mod 2 ^ 32"
proof -
  have "unat (ucast (drop_bit (i * 32) b) :: el_t) = take_bit 32 (unat (drop_bit (i * 32) b))"
    by (simp add: unsigned_ucast_eq)
  also have "\<dots> = take_bit 32 (drop_bit (i * 32) (unat b))"
    by (simp only: unat_drop_bit_eq)
  also have "\<dots> = unat b div 2 ^ (32 * i) mod 2 ^ 32"
    by (simp add: take_bit_eq_mod drop_bit_eq_div mult.commute)
  finally show ?thesis .
qed

lemma mod_slice:
  "(a::nat) mod 2 ^ (32 * Suc n) = a mod 2 ^ (32 * n) + 2 ^ (32 * n) * (a div 2 ^ (32 * n) mod 2 ^ 32)"
proof -
  have "(2::nat) ^ (32 * Suc n) = 2 ^ (32 * n) * 2 ^ 32"
    by (simp add: power_add)
  then show ?thesis
    by (simp add: mod_mult2_eq)
qed

lemma pluseq_step_eq:
  fixes b :: "'b::len word"
  assumes "unat c \<le> 1" and "i < length el"
  shows "\<exists>w c'. pluseq_step b i (el, c) = (el[i := w], c') \<and> unat c' \<le> 1
           \<and> unat w + 2 ^ 32 * unat c'
               = unat (el ! i) + unat c + unat b div 2 ^ (32 * i) mod 2 ^ 32"
proof -
  define b_i where "b_i = (ucast (drop_bit (i * 32) b) :: el_t)"
  define y where "y = el ! i + c"
  define w where "w = y + b_i"
  define c1 where "c1 = (of_bool (y < c) :: el_t)"
  define c2 where "c2 = (of_bool (w < b_i) :: el_t)"
  have st: "pluseq_step b i (el, c) = (el[i := w], c1 OR c2)"
    using assms(2)
    by (simp add: pluseq_step_def Let_def EL_SIZE_IN_BITS_def b_i_def y_def w_def c1_def c2_def)
  have e1: "unat y + 2 ^ 32 * unat c1 = unat (el ! i) + unat c"
    unfolding y_def c1_def by (rule add_wraps)
  have e2: "unat w + 2 ^ 32 * unat c2 = unat y + unat b_i"
    unfolding w_def c2_def by (rule add_wraps)
  have both: "\<not> (y < c \<and> w < b_i)"
  proof
    assume a: "y < c \<and> w < b_i"
    then have "unat c1 = 1" and "unat c2 = 1" by (simp_all add: c1_def c2_def)
    with e1 e2 have "unat w + 2 ^ 32 + 2 ^ 32 = unat (el ! i) + unat c + unat b_i" by simp
    then show False
      using assms(1) unat_el_lt [of "el ! i"] unat_el_lt [of b_i] by simp
  qed
  have "unat (c1 OR c2) = unat c1 + unat c2"
    unfolding c1_def c2_def by (rule unat_of_bool_or [OF both])
  with e1 e2 have "unat w + 2 ^ 32 * unat (c1 OR c2) = unat (el ! i) + unat c + unat b_i"
    by (simp add: algebra_simps)
  moreover have "unat (c1 OR c2) \<le> 1"
    unfolding c1_def c2_def by (rule unat_of_bool_or_le)
  moreover have "unat b_i = unat b div 2 ^ (32 * i) mod 2 ^ 32"
    unfolding b_i_def by (rule unat_slice)
  ultimately show ?thesis using st by metis
qed

lemma pluseq_carry_step_eq:
  assumes "i < length el"
  shows "\<exists>w c'. pluseq_carry_step i (el, c) = (el[i := w], c') \<and> unat c' \<le> 1
           \<and> unat w + 2 ^ 32 * unat c' = unat (el ! i) + unat c"
proof -
  define y where "y = el ! i + c"
  define c1 where "c1 = (of_bool (y < c) :: el_t)"
  have st: "pluseq_carry_step i (el, c) = (el[i := y], c1)"
    using assms by (simp add: pluseq_carry_step_def Let_def y_def c1_def)
  have e1: "unat y + 2 ^ 32 * unat c1 = unat (el ! i) + unat c"
    unfolding y_def c1_def by (rule add_wraps)
  have "unat c1 \<le> 1" by (simp add: c1_def)
  then show ?thesis using st e1 by metis
qed

lemma pluseq_fold:
  fixes b :: "'b::len word"
  shows "n \<le> length el \<Longrightarrow>
     (case fold (pluseq_step b) [0..<n] (el, 0) of (el', c') \<Rightarrow>
        length el' = length el \<and> unat c' \<le> 1 \<and>
        value_of el' + 2 ^ (32 * n) * unat c' = value_of el + unat b mod 2 ^ (32 * n))"
proof (induction n)
  case 0
  then show ?case by simp
next
  case (Suc n)
  obtain el1 c1 where f: "fold (pluseq_step b) [0..<n] (el, 0) = (el1, c1)"
    by (cases "fold (pluseq_step b) [0..<n] (el, 0)")
  from Suc f have len: "length el1 = length el" and c1: "unat c1 \<le> 1"
    and v: "value_of el1 + 2 ^ (32 * n) * unat c1 = value_of el + unat b mod 2 ^ (32 * n)"
    by simp_all
  have n: "n < length el1" using Suc.prems len by simp
  obtain w c' where st: "pluseq_step b n (el1, c1) = (el1[n := w], c')"
    and c': "unat c' \<le> 1"
    and e: "unat w + 2 ^ 32 * unat c' = unat (el1 ! n) + unat c1 + unat b div 2 ^ (32 * n) mod 2 ^ 32"
    using pluseq_step_eq [OF c1 n, of b] by blast
  define P where "P = (2::nat) ^ (32 * n)"
  have P: "2 ^ (32 * Suc n) = P * 2 ^ 32" by (simp add: P_def power_add)
  have u: "value_of (el1[n := w]) + P * unat (el1 ! n) = value_of el1 + P * unat w"
    unfolding P_def by (rule value_of_update [OF n])
  have "P * (unat w + 2 ^ 32 * unat c') = P * (unat (el1 ! n) + unat c1 + unat b div 2 ^ (32 * n) mod 2 ^ 32)"
    using e by simp
  then have "value_of (el1[n := w]) + P * 2 ^ 32 * unat c' + P * unat (el1 ! n) 
     = value_of el1 + P * unat c1 + P * (unat b div P mod 2 ^ 32) + P * unat (el1 ! n)"
    using u by (simp add: algebra_simps P_def)
  then have "value_of (el1[n := w]) + P * 2 ^ 32 * unat c'
     = value_of el + (unat b mod P + P * (unat b div P mod 2 ^ 32))"
    using v by (simp add: P_def)
  then have "value_of (el1[n := w]) + 2 ^ (32 * Suc n) * unat c'
     = value_of el + unat b mod 2 ^ (32 * Suc n)"
    unfolding mod_slice [of "unat b" n] by (simp add: P_def power_add)
  moreover have "fold (pluseq_step b) [0..<Suc n] (el, 0) = (el1[n := w], c')"
    using f st by simp
  ultimately show ?case using len c' by simp
qed

lemma pluseq_carry_fold:
  shows "unat c \<le> 1 \<Longrightarrow> k \<le> n \<Longrightarrow> n \<le> length el \<Longrightarrow>
     (case fold pluseq_carry_step [k..<n] (el, c) of (el', c') \<Rightarrow>
        length el' = length el \<and> unat c' \<le> 1 \<and>
        value_of el' + 2 ^ (32 * n) * unat c' = value_of el + 2 ^ (32 * k) * unat c)"
proof (induction n)
  case 0
  then show ?case by simp
next
  case (Suc n)
  show ?case
  proof (cases "k = Suc n")
    case True
    then show ?thesis using Suc.prems by simp
  next
    case False
    then have kn: "k \<le> n" using Suc.prems by simp
    obtain el1 c1 where f: "fold pluseq_carry_step [k..<n] (el, c) = (el1, c1)"
      by (cases "fold pluseq_carry_step [k..<n] (el, c)")
    from Suc.IH [OF Suc.prems(1) kn] Suc.prems(3) f
    have len: "length el1 = length el" and c1: "unat c1 \<le> 1"
      and v: "value_of el1 + 2 ^ (32 * n) * unat c1 = value_of el + 2 ^ (32 * k) * unat c"
      by simp_all
    have n: "n < length el1" using Suc.prems len by simp
    obtain w c' where st: "pluseq_carry_step n (el1, c1) = (el1[n := w], c')"
      and c': "unat c' \<le> 1"
      and e: "unat w + 2 ^ 32 * unat c' = unat (el1 ! n) + unat c1"
      using pluseq_carry_step_eq [OF n, of c1] by blast
    define P where "P = (2::nat) ^ (32 * n)"
    have P: "2 ^ (32 * Suc n) = P * 2 ^ 32" by (simp add: P_def power_add)
    have u: "value_of (el1[n := w]) + P * unat (el1 ! n) = value_of el1 + P * unat w"
      unfolding P_def by (rule value_of_update [OF n])
    have "P * (unat w + 2 ^ 32 * unat c') = P * (unat (el1 ! n) + unat c1)"
      using e by simp
    then have "value_of (el1[n := w]) + P * 2 ^ 32 * unat c' + P * unat (el1 ! n) 
       = value_of el1 + P * unat c1 + P * unat (el1 ! n)"
      using u by (simp add: algebra_simps)
    then have "value_of (el1[n := w]) + 2 ^ (32 * Suc n) * unat c'
       = value_of el + 2 ^ (32 * k) * unat c"
      unfolding P using v by (simp add: P_def)
    moreover have "fold pluseq_carry_step [k..<Suc n] (el, c) = (el1[n := w], c')"
      using f st kn by simp
    ultimately show ?thesis using len c' by simp
  qed
qed

lemma pluseq_limbs_value:
  fixes b :: "'b::len word"
  assumes "LENGTH('b) mod 32 = 0"
  shows "length (pluseq_limbs b el) = length el \<and>
     value_of (pluseq_limbs b el) = (value_of el + unat b) mod 2 ^ (32 * length el)"
proof -
  define k where "k = min (sizeof b div sizeof_el_t) (length el)"
  obtain el1 c1 where f1: "fold (pluseq_step b) [0..<k] (el, 0) = (el1, c1)"
    by (cases "fold (pluseq_step b) [0..<k] (el, 0)")
  obtain el2 c2 where f2: "fold pluseq_carry_step [k..<length el] (el1, c1) = (el2, c2)"
    by (cases "fold pluseq_carry_step [k..<length el] (el1, c1)")
  have k: "k \<le> length el" by (simp add: k_def)
  from pluseq_fold [OF k, of b] f1
  have len1: "length el1 = length el" and c1: "unat c1 \<le> 1"
    and v1: "value_of el1 + 2 ^ (32 * k) * unat c1 = value_of el + unat b mod 2 ^ (32 * k)"
    by simp_all
  from pluseq_carry_fold [OF c1 k, of el1] f2 len1
  have len2: "length el2 = length el"
    and v2: "value_of el2 + 2 ^ (32 * length el) * unat c2 = value_of el1 + 2 ^ (32 * k) * unat c1"
    by simp_all
  have res: "pluseq_limbs b el = el2"
    using f1 f2 by (simp add: pluseq_limbs_def SIZE_IN_ELS_def Let_def flip: k_def)
  define M where "M = (2::nat) ^ (32 * length el)"
  have eq: "value_of el2 + M * unat c2 = value_of el + unat b mod 2 ^ (32 * k)"
    using v1 v2 by (simp add: M_def)
  have lt: "value_of el2 < M"
    using value_of_lt [of el2] len2 by (simp add: M_def)
  have "value_of el2 = (value_of el2 + M * unat c2) mod M"
    using lt by simp
  also have "\<dots> = (value_of el + unat b mod 2 ^ (32 * k)) mod M"
    by (simp only: eq)
  also have "\<dots> = (value_of el + unat b) mod M"
  proof (cases "k = length el")
    case True
    then show ?thesis by (simp add: M_def mod_add_right_eq)
  next
    case False
    then have "k = sizeof b div sizeof_el_t"
      by (simp add: k_def min_def split: if_splits)
    then have "k = LENGTH('b) div 32"
      by (simp add: sizeof_def sizeof_el_t_def div_mult2_eq [symmetric])
    then have "32 * k = LENGTH('b)"
      using assms mult_div_mod_eq [of 32 "LENGTH('b)"] by simp
    then have "unat b mod 2 ^ (32 * k) = unat b"
      using unsigned_less [of b, where 'a = nat] by simp
    then show ?thesis by simp
  qed
  finally show ?thesis using res len2 by (simp add: M_def)
qed

section \<open>Subtract-assign\<close>

lemma minuseq_step_eq:
  fixes b :: "'b::len word"
  assumes "unat c \<le> 1" and "i < length el"
  shows "\<exists>w c'. minuseq_step b i (el, c) = (el[i := w], c') \<and> unat c' \<le> 1
           \<and> unat w + unat c + unat b div 2 ^ (32 * i) mod 2 ^ 32
               = unat (el ! i) + 2 ^ 32 * unat c'"
proof -
  define b_i where "b_i = (ucast (drop_bit (i * 32) b) :: el_t)"
  define y where "y = el ! i - c"
  define w where "w = y - b_i"
  define c1 where "c1 = (of_bool (y > el ! i) :: el_t)"
  define c2 where "c2 = (of_bool (w > y) :: el_t)"
  have st: "minuseq_step b i (el, c) = (el[i := w], c1 OR c2)"
    using assms(2)
    by (simp add: minuseq_step_def Let_def EL_SIZE_IN_BITS_def b_i_def y_def w_def c1_def c2_def)
  have e1: "unat y + unat c = unat (el ! i) + 2 ^ 32 * unat c1"
    unfolding y_def c1_def by (rule sub_wraps)
  have e2: "unat w + unat b_i = unat y + 2 ^ 32 * unat c2"
    unfolding w_def c2_def by (rule sub_wraps)
  have both: "\<not> (y > el ! i \<and> w > y)"
  proof
    assume a: "y > el ! i \<and> w > y"
    then have "unat c1 = 1" and "unat c2 = 1" by (simp_all add: c1_def c2_def)
    with e1 e2 have "unat w + unat b_i + unat c = unat (el ! i) + 2 ^ 32 + 2 ^ 32" by simp
    then show False
      using assms(1) unat_el_lt [of w] unat_el_lt [of b_i] by simp
  qed
  have "unat (c1 OR c2) = unat c1 + unat c2"
    unfolding c1_def c2_def by (rule unat_of_bool_or [OF both])
  with e1 e2 have "unat w + unat c + unat b_i = unat (el ! i) + 2 ^ 32 * unat (c1 OR c2)"
    by (simp add: algebra_simps)
  moreover have "unat (c1 OR c2) \<le> 1"
    unfolding c1_def c2_def by (rule unat_of_bool_or_le)
  moreover have "unat b_i = unat b div 2 ^ (32 * i) mod 2 ^ 32"
    unfolding b_i_def by (rule unat_slice)
  ultimately show ?thesis using st by metis
qed

lemma minuseq_carry_step_eq:
  assumes "i < length el"
  shows "\<exists>w c'. minuseq_carry_step i (el, c) = (el[i := w], c') \<and> unat c' \<le> 1
           \<and> unat w + unat c = unat (el ! i) + 2 ^ 32 * unat c'"
proof -
  define y where "y = el ! i - c"
  define c1 where "c1 = (of_bool (y > el ! i) :: el_t)"
  have st: "minuseq_carry_step i (el, c) = (el[i := y], c1)"
    using assms by (simp add: minuseq_carry_step_def Let_def y_def c1_def)
  have e1: "unat y + unat c = unat (el ! i) + 2 ^ 32 * unat c1"
    unfolding y_def c1_def by (rule sub_wraps)
  have "unat c1 \<le> 1" by (simp add: c1_def)
  then show ?thesis using st e1 by metis
qed

lemma minuseq_fold:
  fixes b :: "'b::len word"
  shows "n \<le> length el \<Longrightarrow>
     (case fold (minuseq_step b) [0..<n] (el, 0) of (el', c') \<Rightarrow>
        length el' = length el \<and> unat c' \<le> 1 \<and>
        value_of el' + unat b mod 2 ^ (32 * n) = value_of el + 2 ^ (32 * n) * unat c')"
proof (induction n)
  case 0
  then show ?case by simp
next
  case (Suc n)
  obtain el1 c1 where f: "fold (minuseq_step b) [0..<n] (el, 0) = (el1, c1)"
    by (cases "fold (minuseq_step b) [0..<n] (el, 0)")
  from Suc f have len: "length el1 = length el" and c1: "unat c1 \<le> 1"
    and v: "value_of el1 + unat b mod 2 ^ (32 * n) = value_of el + 2 ^ (32 * n) * unat c1"
    by simp_all
  have n: "n < length el1" using Suc.prems len by simp
  obtain w c' where st: "minuseq_step b n (el1, c1) = (el1[n := w], c')"
    and c': "unat c' \<le> 1"
    and e: "unat w + unat c1 + unat b div 2 ^ (32 * n) mod 2 ^ 32 = unat (el1 ! n) + 2 ^ 32 * unat c'"
    using minuseq_step_eq [OF c1 n, of b] by blast
  define P where "P = (2::nat) ^ (32 * n)"
  define s where "s = unat b div P mod 2 ^ 32"
  have P: "2 ^ (32 * Suc n) = P * 2 ^ 32" by (simp add: P_def power_add)
  have u: "value_of (el1[n := w]) + P * unat (el1 ! n) = value_of el1 + P * unat w"
    unfolding P_def by (rule value_of_update [OF n])
  have "P * (unat w + unat c1 + s) = P * (unat (el1 ! n) + 2 ^ 32 * unat c')"
    using e by (simp add: s_def P_def)
  then have e': "P * unat w + P * unat c1 + P * s = P * unat (el1 ! n) + P * 2 ^ 32 * unat c'"
    by (simp add: algebra_simps)
  have v': "value_of el1 + unat b mod P = value_of el + P * unat c1"
    using v by (simp add: P_def)
  have "value_of (el1[n := w]) + (unat b mod P + P * s) = value_of el + P * 2 ^ 32 * unat c'"
    using u e' v' by linarith
  then have "value_of (el1[n := w]) + unat b mod 2 ^ (32 * Suc n)
     = value_of el + 2 ^ (32 * Suc n) * unat c'"
    unfolding mod_slice [of "unat b" n] by (simp add: P_def s_def power_add)
  moreover have "fold (minuseq_step b) [0..<Suc n] (el, 0) = (el1[n := w], c')"
    using f st by simp
  ultimately show ?case using len c' by simp
qed

lemma minuseq_carry_fold:
  shows "unat c \<le> 1 \<Longrightarrow> k \<le> n \<Longrightarrow> n \<le> length el \<Longrightarrow>
     (case fold minuseq_carry_step [k..<n] (el, c) of (el', c') \<Rightarrow>
        length el' = length el \<and> unat c' \<le> 1 \<and>
        value_of el' + 2 ^ (32 * k) * unat c = value_of el + 2 ^ (32 * n) * unat c')"
proof (induction n)
  case 0
  then show ?case by simp
next
  case (Suc n)
  show ?case
  proof (cases "k = Suc n")
    case True
    then show ?thesis using Suc.prems by simp
  next
    case False
    then have kn: "k \<le> n" using Suc.prems by simp
    obtain el1 c1 where f: "fold minuseq_carry_step [k..<n] (el, c) = (el1, c1)"
      by (cases "fold minuseq_carry_step [k..<n] (el, c)")
    from Suc.IH [OF Suc.prems(1) kn] Suc.prems(3) f
    have len: "length el1 = length el" and c1: "unat c1 \<le> 1"
      and v: "value_of el1 + 2 ^ (32 * k) * unat c = value_of el + 2 ^ (32 * n) * unat c1"
      by simp_all
    have n: "n < length el1" using Suc.prems len by simp
    obtain w c' where st: "minuseq_carry_step n (el1, c1) = (el1[n := w], c')"
      and c': "unat c' \<le> 1"
      and e: "unat w + unat c1 = unat (el1 ! n) + 2 ^ 32 * unat c'"
      using minuseq_carry_step_eq [OF n, of c1] by blast
    define P where "P = (2::nat) ^ (32 * n)"
    have P: "2 ^ (32 * Suc n) = P * 2 ^ 32" by (simp add: P_def power_add)
    have u: "value_of (el1[n := w]) + P * unat (el1 ! n) = value_of el1 + P * unat w"
      unfolding P_def by (rule value_of_update [OF n])
    have "P * (unat w + unat c1) = P * (unat (el1 ! n) + 2 ^ 32 * unat c')"
      using e by simp
    then have e': "P * unat w + P * unat c1 = P * unat (el1 ! n) + P * 2 ^ 32 * unat c'"
      by (simp add: algebra_simps)
    have v': "value_of el1 + 2 ^ (32 * k) * unat c = value_of el + P * unat c1"
      using v by (simp add: P_def)
    have "value_of (el1[n := w]) + 2 ^ (32 * k) * unat c = value_of el + P * 2 ^ 32 * unat c'"
      using u e' v' by linarith
    then have "value_of (el1[n := w]) + 2 ^ (32 * k) * unat c
       = value_of el + 2 ^ (32 * Suc n) * unat c'"
      unfolding P by simp
    moreover have "fold minuseq_carry_step [k..<Suc n] (el, c) = (el1[n := w], c')"
      using f st kn by simp
    ultimately show ?thesis using len c' by simp
  qed
qed

lemma minuseq_limbs_value:
  fixes b :: "'b::len word"
  assumes "LENGTH('b) mod 32 = 0"
  shows "length (minuseq_limbs b el) = length el \<and>
     int (value_of (minuseq_limbs b el))
       = (int (value_of el) - int (unat b)) mod 2 ^ (32 * length el)"
proof -
  define k where "k = min (sizeof b div sizeof_el_t) (length el)"
  obtain el1 c1 where f1: "fold (minuseq_step b) [0..<k] (el, 0) = (el1, c1)"
    by (cases "fold (minuseq_step b) [0..<k] (el, 0)")
  obtain el2 c2 where f2: "fold minuseq_carry_step [k..<length el] (el1, c1) = (el2, c2)"
    by (cases "fold minuseq_carry_step [k..<length el] (el1, c1)")
  have k: "k \<le> length el" by (simp add: k_def)
  from minuseq_fold [OF k, of b] f1
  have len1: "length el1 = length el" and c1: "unat c1 \<le> 1"
    and v1: "value_of el1 + unat b mod 2 ^ (32 * k) = value_of el + 2 ^ (32 * k) * unat c1"
    by simp_all
  from minuseq_carry_fold [OF c1 k, of el1] f2 len1
  have len2: "length el2 = length el"
    and v2: "value_of el2 + 2 ^ (32 * k) * unat c1 = value_of el1 + 2 ^ (32 * length el) * unat c2"
    by simp_all
  have res: "minuseq_limbs b el = el2"
    using f1 f2 by (simp add: minuseq_limbs_def SIZE_IN_ELS_def Let_def flip: k_def)
  define M where "M = (2::nat) ^ (32 * length el)"
  define bm where "bm = unat b mod 2 ^ (32 * k)"
  have eq: "value_of el2 + bm = value_of el + M * unat c2"
    using v1 v2 by (simp add: M_def bm_def)
  have lt: "value_of el2 < M"
    using value_of_lt [of el2] len2 by (simp add: M_def)
  have "int (value_of el2 + bm) = int (value_of el + M * unat c2)"
    using eq by simp
  then have "int (value_of el2) = int (value_of el) - int bm + int M * int (unat c2)"
    by (simp only: of_nat_add of_nat_mult)
  then have "int (value_of el2) mod int M = (int (value_of el) - int bm) mod int M"
    by simp
  then have "int (value_of el2) = (int (value_of el) - int bm) mod int M"
    using lt by simp
  also have "\<dots> = (int (value_of el) - int (unat b)) mod int M"
  proof (cases "k = length el")
    case True
    then have "int bm = int (unat b) mod int M"
      by (simp add: bm_def M_def of_nat_mod)
    then show ?thesis by (simp add: mod_diff_right_eq)
  next
    case False
    then have "k = sizeof b div sizeof_el_t"
      by (simp add: k_def min_def split: if_splits)
    then have "k = LENGTH('b) div 32"
      by (simp add: sizeof_def sizeof_el_t_def div_mult2_eq [symmetric])
    then have "32 * k = LENGTH('b)"
      using assms mult_div_mod_eq [of 32 "LENGTH('b)"] by simp
    then have "unat b mod 2 ^ (32 * k) = unat b"
      using unsigned_less [of b, where 'a = nat] by simp
    then show ?thesis by (simp add: bm_def)
  qed
  finally show ?thesis using res len2 by (simp add: M_def)
qed

lemma value_of_inj:
  "length xs = length ys \<Longrightarrow> value_of xs = value_of ys \<Longrightarrow> xs = ys"
proof (induction xs ys rule: list_induct2)
  case Nil
  then show ?case by simp
next
  case (Cons x xs y ys)
  have "(unat x + 2 ^ 32 * value_of xs) mod 2 ^ 32 = (unat y + 2 ^ 32 * value_of ys) mod 2 ^ 32"
    using Cons.prems by simp
  then have "unat x = unat y"
    using unat_el_lt [of x] unat_el_lt [of y] by simp
  then have "x = y" by (simp add: word_eq_iff_unsigned [where ?'a = nat])
  moreover have "value_of xs = value_of ys"
    using Cons.prems \<open>unat x = unat y\<close> by simp
  ultimately show ?case using Cons.IH by simp
qed

section \<open>Multiply-assign by a limb\<close>

lemma nth_of_drop_eq:
  "drop n xs = drop n ys \<Longrightarrow> n < length xs \<Longrightarrow> length xs = length ys \<Longrightarrow> xs ! n = ys ! n"
  by (metis hd_drop_conv_nth)

lemma drop_Suc_of_drop_eq:
  "drop n xs = drop n ys \<Longrightarrow> drop (Suc n) xs = drop (Suc n) ys"
  by (metis drop_drop plus_1_eq_Suc)

lemma muleq_step_el_eq:
  assumes "unat tw < 2 ^ 32" and "i < length el"
  shows "\<exists>w t'. muleq_step_el b i (el, tw) = (el[i := w], t') \<and> unat t' < 2 ^ 32
           \<and> unat w + 2 ^ 32 * unat t' = unat tw + unat (el ! i) * unat b"
proof -
  define t where "t = tw + (ucast (el ! i) :: tw_t) * ucast b"
  have "unat (el ! i) * unat b \<le> (2 ^ 32 - 1) * (2 ^ 32 - 1)"
    using unat_el_lt [of "el ! i"] unat_el_lt [of b] by (intro mult_mono) simp_all
  then have bound: "unat tw + unat (el ! i) * unat b < 2 ^ 64"
    using assms(1) by simp
  have "unat ((ucast (el ! i) :: tw_t) * ucast b) = unat (el ! i) * unat b"
    using bound by (simp add: unat_word_ariths unat_ucast_el_tw)
  then have t: "unat t = unat tw + unat (el ! i) * unat b"
    using bound by (simp add: t_def unat_word_ariths)
  have w: "unat (ucast t :: el_t) = unat t mod 2 ^ 32"
    by (simp add: unsigned_ucast_eq take_bit_eq_mod)
  have "unat (drop_bit 32 t) = drop_bit 32 (unat t)"
    by (simp only: unat_drop_bit_eq)
  then have d: "unat (drop_bit 32 t) = unat t div 2 ^ 32"
    by (simp only: drop_bit_eq_div)
  have "unat t < 2 ^ 32 * 2 ^ 32"
    using unsigned_less [of t, where 'a = nat] by simp
  then have dlt: "unat (drop_bit 32 t) < 2 ^ 32"
    unfolding d by (simp add: less_mult_imp_div_less)
  have "unat (ucast t :: el_t) + 2 ^ 32 * unat (drop_bit 32 t) = unat t"
    unfolding w d by simp
  moreover have "muleq_step_el b i (el, tw) = (el[i := ucast t], drop_bit 32 t)"
    by (simp add: muleq_step_el_def Let_def t_def EL_SIZE_IN_BITS_def)
  ultimately show ?thesis using dlt t by metis
qed

lemma muleq_el_fold:
  "n \<le> length el \<Longrightarrow>
     (case fold (muleq_step_el b) [0..<n] (el, 0) of (el', t') \<Rightarrow>
        length el' = length el \<and> drop n el' = drop n el \<and> unat t' < 2 ^ 32 \<and>
        value_of (take n el') + 2 ^ (32 * n) * unat t' = value_of (take n el) * unat b)"
proof (induction n)
  case 0
  then show ?case by simp
next
  case (Suc n)
  obtain el1 t1 where f: "fold (muleq_step_el b) [0..<n] (el, 0) = (el1, t1)"
    by (cases "fold (muleq_step_el b) [0..<n] (el, 0)")
  from Suc f have len: "length el1 = length el" and dr: "drop n el1 = drop n el"
    and t1: "unat t1 < 2 ^ 32"
    and v: "value_of (take n el1) + 2 ^ (32 * n) * unat t1 = value_of (take n el) * unat b"
    by simp_all
  have n: "n < length el1" using Suc.prems len by simp
  have nth: "el1 ! n = el ! n"
    using nth_of_drop_eq [OF dr n len] .
  obtain w t' where st: "muleq_step_el b n (el1, t1) = (el1[n := w], t')"
    and t': "unat t' < 2 ^ 32"
    and e: "unat w + 2 ^ 32 * unat t' = unat t1 + unat (el ! n) * unat b"
    using muleq_step_el_eq [OF t1 n, of b] nth by auto
  define P where "P = (2::nat) ^ (32 * n)"
  have P: "2 ^ (32 * Suc n) = P * 2 ^ 32" by (simp add: P_def power_add)
  have tk: "value_of (take (Suc n) (el1[n := w])) = value_of (take n el1) + P * unat w"
    using n by (simp add: take_Suc_value P_def)
  have tk0: "value_of (take (Suc n) el) = value_of (take n el) + P * unat (el ! n)"
    using n len by (simp add: take_Suc_value P_def)
  have "P * (unat w + 2 ^ 32 * unat t') = P * (unat t1 + unat (el ! n) * unat b)"
    using e by simp
  then have "value_of (take n el1) + P * unat w + P * 2 ^ 32 * unat t'
     = (value_of (take n el1) + P * unat t1) + P * unat (el ! n) * unat b"
    by (simp add: algebra_simps)
  also have "\<dots> = value_of (take (Suc n) el) * unat b"
    using v by (simp add: tk0 P_def algebra_simps)
  finally have "value_of (take (Suc n) (el1[n := w])) + 2 ^ (32 * Suc n) * unat t'
     = value_of (take (Suc n) el) * unat b"
    unfolding tk P by simp
  moreover have "drop (Suc n) (el1[n := w]) = drop (Suc n) el"
    using drop_Suc_of_drop_eq [OF dr] by simp
  moreover have "fold (muleq_step_el b) [0..<Suc n] (el, 0) = (el1[n := w], t')"
    using f st by simp
  ultimately show ?case using len t' by simp
qed

lemma muleq_limbs_el_value:
  fixes b :: "'b::len word"
  assumes "LENGTH('b) = 32"
  shows "length (muleq_limbs b el) = length el \<and>
     value_of (muleq_limbs b el) = (value_of el * unat b) mod 2 ^ (32 * length el)"
proof -
  obtain el1 t1 where f: "fold (muleq_step_el (ucast b)) [0..<length el] (el, 0) = (el1, t1)"
    by (cases "fold (muleq_step_el (ucast b)) [0..<length el] (el, 0)")
  have "length el1 = length el \<and>
      value_of (take (length el) el1) + 2 ^ (32 * length el) * unat t1
        = value_of el * unat (ucast b :: el_t)"
    using muleq_el_fold [of "length el" el "ucast b"] f by auto
  then have len: "length el1 = length el"
    and v: "value_of el1 + 2 ^ (32 * length el) * unat t1 = value_of el * unat (ucast b :: el_t)"
    by auto
  have ub: "unat (ucast b :: el_t) = unat b"
    using unsigned_less [of b, where 'a = nat] assms
    by (simp add: unsigned_ucast_eq take_bit_nat_eq_self)
  have res: "muleq_limbs b el = el1"
    using f assms by (simp add: muleq_limbs_def sizeof_def sizeof_el_t_def SIZE_IN_ELS_def)
  define M where "M = (2::nat) ^ (32 * length el)"
  have lt: "value_of el1 < M"
    using value_of_lt [of el1] len by (simp add: M_def)
  have "value_of el1 = (value_of el1 + M * unat t1) mod M"
    using lt by simp
  also have "\<dots> = (value_of el * unat b) mod M"
    using v ub by (simp add: M_def)
  finally show ?thesis using res len by (simp add: M_def)
qed

section \<open>The shifts as divisions\<close>

lemma loshift_1el_fold_nth:
  "n < length el \<Longrightarrow>
     length (fold (\<lambda>i e. e[i := e ! (i + 1)]) [0..<n] el) = length el \<and>
     (\<forall>j < length el. fold (\<lambda>i e. e[i := e ! (i + 1)]) [0..<n] el ! j
         = (if j < n then el ! (j + 1) else el ! j))"
proof (induction n)
  case 0
  then show ?case by simp
next
  case (Suc n)
  define e where "e = fold (\<lambda>i e. e[i := e ! (i + 1)]) [0..<n] el"
  from Suc have len: "length e = length el"
    and nth: "\<And>j. j < length el \<Longrightarrow> e ! j = (if j < n then el ! (j + 1) else el ! j)"
    by (simp_all add: e_def)
  have step: "fold (\<lambda>i e. e[i := e ! (i + 1)]) [0..<Suc n] el = e[n := e ! (n + 1)]"
    by (simp add: e_def)
  have "e ! (n + 1) = el ! (n + 1)"
    using nth [of "n + 1"] Suc.prems by simp
  then show ?case
    unfolding step using len nth Suc.prems
    by (auto simp add: nth_list_update less_Suc_eq)
qed

lemma loshift_1el_eq:
  assumes "el \<noteq> []"
  shows "loshift_1el el = tl el @ [0]"
proof (rule nth_equalityI)
  have n: "length el - 1 < length el" using assms by (cases el) simp_all
  note f = loshift_1el_fold_nth [OF n]
  show "length (loshift_1el el) = length (tl el @ [0])"
    using f assms by (simp add: loshift_1el_def SIZE_IN_ELS_def)
  fix j assume "j < length (loshift_1el el)"
  then have j: "j < length el"
    using f by (simp add: loshift_1el_def SIZE_IN_ELS_def)
  show "loshift_1el el ! j = (tl el @ [0]) ! j"
  proof (cases "j = length el - 1")
    case True
    then show ?thesis
      using f j by (simp add: loshift_1el_def SIZE_IN_ELS_def nth_append)
  next
    case False
    then have "j < length el - 1" using j by simp
    then show ?thesis
      using f j by (simp add: loshift_1el_def SIZE_IN_ELS_def nth_append nth_tl)
  qed
qed

lemma loshift_1el_value:
  assumes "el \<noteq> []"
  shows "length (loshift_1el el) = length el \<and> value_of (loshift_1el el) = value_of el div 2 ^ 32"
proof -
  obtain x xs where el: "el = x # xs" using assms by (cases el) simp_all
  have "value_of (xs @ [0]) = value_of xs" by (simp add: value_of_append)
  then show ?thesis
    using unat_el_lt [of x] by (simp add: loshift_1el_eq el)
qed

lemma loshift_1el_funpow_value:
  assumes "el \<noteq> []"
  shows "length ((loshift_1el ^^ c) el) = length el \<and>
     value_of ((loshift_1el ^^ c) el) = value_of el div 2 ^ (32 * c)"
proof (induction c)
  case 0
  then show ?case by simp
next
  case (Suc c)
  define e where "e = (loshift_1el ^^ c) el"
  have len: "length e = length el" and v: "value_of e = value_of el div 2 ^ (32 * c)"
    using Suc by (simp_all add: e_def)
  have ne: "e \<noteq> []" using len assms by auto
  have "value_of (loshift_1el e) = value_of el div 2 ^ (32 * c) div 2 ^ 32"
    using loshift_1el_value [OF ne] v by simp
  also have "\<dots> = value_of el div (2 ^ (32 * c) * 2 ^ 32)"
    by (simp only: div_mult2_eq)
  also have "\<dots> = value_of el div 2 ^ (32 * Suc c)"
    by (simp add: power_add mult.commute)
  finally show ?case
    using loshift_1el_value [OF ne] len by (simp add: e_def)
qed

lemma unat_drop_bit_div:
  fixes w :: "'a::len word"
  shows "unat (drop_bit n w) = unat w div 2 ^ n"
proof -
  have "unat (drop_bit n w) = drop_bit n (unat w)"
    by (simp only: unat_drop_bit_eq)
  then show ?thesis
    by (simp only: drop_bit_eq_div)
qed

lemma unat_shift_or:
  fixes x y :: el_t
  assumes "0 < W" and "W < 32"
  shows "unat (drop_bit W x OR push_bit (32 - W) y)
     = unat x div 2 ^ W + 2 ^ (32 - W) * (unat y mod 2 ^ W)"
proof -
  have eq: "drop_bit W x OR push_bit (32 - W) y = drop_bit W x + push_bit (32 - W) y"
    using assms
    by (intro disjunctive_add_eq_or [symmetric] bit_eqI)
       (auto simp add: bit_simps dest: bit_imp_le_length)
  have "unat (drop_bit W x) = drop_bit W (unat x)"
    by (simp only: unat_drop_bit_eq)
  then have d: "unat (drop_bit W x) = unat x div 2 ^ W"
    by (simp only: drop_bit_eq_div)
  have p32: "(2::nat) ^ 32 = 2 ^ (32 - W) * 2 ^ W"
    using assms by (simp flip: power_add)
  have "unat (push_bit (32 - W) y) = take_bit 32 (push_bit (32 - W) (unat y))"
    by (simp add: unsigned_push_bit_eq)
  also have "\<dots> = (2 ^ (32 - W) * unat y) mod (2 ^ (32 - W) * 2 ^ W)"
    by (simp only: take_bit_eq_mod push_bit_eq_mult p32 mult.commute)
  also have "\<dots> = 2 ^ (32 - W) * (unat y mod 2 ^ W)"
    by (simp only: mult_mod_right)
  finally have p: "unat (push_bit (32 - W) y) = 2 ^ (32 - W) * (unat y mod 2 ^ W)" .
  have "unat x < 2 ^ (32 - W) * 2 ^ W"
    using unat_el_lt [of x] p32 by simp
  then have "unat x div 2 ^ W < 2 ^ (32 - W)"
    by (simp add: less_mult_imp_div_less)
  moreover have "unat y mod 2 ^ W + 1 \<le> 2 ^ W"
    by (simp add: Suc_leI)
  then have "2 ^ (32 - W) * (unat y mod 2 ^ W + 1) \<le> 2 ^ (32 - W) * 2 ^ W"
    by (rule mult_le_mono2)
  ultimately have "unat x div 2 ^ W + 2 ^ (32 - W) * (unat y mod 2 ^ W) < 2 ^ 32"
    unfolding p32 by (simp add: algebra_simps)
  then show ?thesis
    unfolding eq using d p by (simp add: unat_word_ariths)
qed

lemma shifted_value:
  assumes "0 < W" and "W < 32"
  shows "length e = length el \<Longrightarrow>
     (\<forall>j < length el. e ! j =
         (if Suc j < length el then drop_bit W (el ! j) OR push_bit (32 - W) (el ! Suc j)
          else drop_bit W (el ! j))) \<Longrightarrow>
     value_of e = value_of el div 2 ^ W"
proof (induction el arbitrary: e)
  case Nil
  then show ?case by simp
next
  case (Cons x xs)
  obtain a as where e: "e = a # as" using Cons.prems(1) by (cases e) simp_all
  have len: "length as = length xs" using Cons.prems(1) e by simp
  have p32: "(2::nat) ^ 32 = 2 ^ W * 2 ^ (32 - W)"
    using assms by (simp flip: power_add)
  have dx: "unat (drop_bit W x) = unat x div 2 ^ W"
    by (rule unat_drop_bit_div)
  show ?case
  proof (cases xs)
    case Nil
    then have "a = drop_bit W x" using Cons.prems(2) e by simp
    then show ?thesis using Nil e len dx by simp
  next
    case (Cons y ys)
    have a: "a = drop_bit W x OR push_bit (32 - W) y"
      using Cons.prems(2) e Cons by force
    have "\<forall>j < length xs. as ! j =
         (if Suc j < length xs then drop_bit W (xs ! j) OR push_bit (32 - W) (xs ! Suc j)
          else drop_bit W (xs ! j))"
    proof (intro allI impI)
      fix j assume j: "j < length xs"
      then have "Suc j < length (x # xs)" by simp
      with Cons.prems(2) have "e ! Suc j =
         (if Suc (Suc j) < length (x # xs)
          then drop_bit W ((x # xs) ! Suc j) OR push_bit (32 - W) ((x # xs) ! Suc (Suc j))
          else drop_bit W ((x # xs) ! Suc j))"
        by blast
      then show "as ! j =
         (if Suc j < length xs then drop_bit W (xs ! j) OR push_bit (32 - W) (xs ! Suc j)
          else drop_bit W (xs ! j))"
        using e by simp
    qed
    from Cons.IH [OF len this] have IH: "value_of as = value_of xs div 2 ^ W" .
    define V where "V = value_of xs"
    have Vm: "V mod 2 ^ W = unat y mod 2 ^ W"
    proof -
      have "V = unat y + 2 ^ W * (2 ^ (32 - W) * value_of ys)"
        using Cons p32 by (simp add: V_def algebra_simps)
      then show ?thesis by simp
    qed
    have "value_of e = unat x div 2 ^ W + 2 ^ (32 - W) * (V mod 2 ^ W) + 2 ^ 32 * (V div 2 ^ W)"
      using e a IH unat_shift_or [OF assms, of x y] Vm by (simp add: V_def)
    also have "2 ^ 32 * (V div 2 ^ W) = 2 ^ (32 - W) * (2 ^ W * (V div 2 ^ W))"
      using p32 by (simp add: algebra_simps)
    finally have "value_of e = unat x div 2 ^ W + 2 ^ (32 - W) * (2 ^ W * (V div 2 ^ W) + V mod 2 ^ W)"
      by (simp only: distrib_left add.assoc add.commute)
    also have "2 ^ W * (V div 2 ^ W) + V mod 2 ^ W = V"
      by (rule mult_div_mod_eq)
    finally have l: "value_of e = unat x div 2 ^ W + 2 ^ (32 - W) * V" .
    have "value_of (x # xs) = unat x + 2 ^ W * (2 ^ (32 - W) * V)"
      using p32 by (simp add: V_def algebra_simps)
    then have "value_of (x # xs) div 2 ^ W = unat x div 2 ^ W + 2 ^ (32 - W) * V"
      by simp
    with l show ?thesis by simp
  qed
qed

lemma loshift_bits_fold_nth:
  "0 < n \<Longrightarrow> n \<le> length el \<Longrightarrow>
     length (fold (loshift_bits_step W) [1..<n] (el[0 := drop_bit W (el ! 0)])) = length el \<and>
     (\<forall>j < length el. fold (loshift_bits_step W) [1..<n] (el[0 := drop_bit W (el ! 0)]) ! j
         = (if Suc j < n then drop_bit W (el ! j) OR push_bit (32 - W) (el ! Suc j)
            else if Suc j = n then drop_bit W (el ! j)
            else el ! j))"
proof (induction n)
  case 0
  then show ?case by simp
next
  case (Suc n)
  show ?case
  proof (cases "n = 0")
    case True
    then show ?thesis using Suc.prems by (auto simp add: nth_list_update)
  next
    case False
    define e where "e = fold (loshift_bits_step W) [1..<n] (el[0 := drop_bit W (el ! 0)])"
    from Suc False have len: "length e = length el"
      and nth: "\<And>j. j < length el \<Longrightarrow> e ! j =
          (if Suc j < n then drop_bit W (el ! j) OR push_bit (32 - W) (el ! Suc j)
            else if Suc j = n then drop_bit W (el ! j)
            else el ! j)"
      by (simp_all add: e_def)
    have n: "n < length el" "n - 1 < length el" "0 < n" using Suc.prems False by simp_all
    have step: "fold (loshift_bits_step W) [1..<Suc n] (el[0 := drop_bit W (el ! 0)])
        = loshift_bits_step W n e"
      using n by (simp add: e_def)
    have en: "e ! n = el ! n" using nth [of n] n by simp
    have en1: "e ! (n - 1) = drop_bit W (el ! (n - 1))" using nth [of "n - 1"] n by simp
    have res: "loshift_bits_step W n e
        = (e[n - 1 := drop_bit W (el ! (n - 1)) OR push_bit (32 - W) (el ! n)])[n := drop_bit W (el ! n)]"
      using n len en en1
      by (simp add: loshift_bits_step_def Let_def EL_SIZE_IN_BITS_def nth_list_update)
    show ?thesis
      unfolding step res using len nth n
      by (auto simp add: nth_list_update less_Suc_eq)
  qed
qed

lemma loshift_bits_value:
  assumes "0 < W" and "W < 32" and "el \<noteq> []"
  shows "length (loshift_bits W el) = length el \<and>
     value_of (loshift_bits W el) = value_of el div 2 ^ W"
proof -
  have n: "0 < length el" using assms(3) by simp
  note f = loshift_bits_fold_nth [OF n order_refl, of W]
  have len: "length (loshift_bits W el) = length el"
    using f by (simp add: loshift_bits_def SIZE_IN_ELS_def)
  have "\<forall>j < length el. loshift_bits W el ! j =
         (if Suc j < length el then drop_bit W (el ! j) OR push_bit (32 - W) (el ! Suc j)
          else drop_bit W (el ! j))"
    using f by (auto simp add: loshift_bits_def SIZE_IN_ELS_def)
  from shifted_value [OF assms(1,2) len this] len show ?thesis by simp
qed

section \<open>The unsigned operators\<close>

lemma unat_ucast_to_el:
  fixes b :: "'b::len word"
  assumes "LENGTH('b) \<le> 32"
  shows "unat (ucast b :: el_t) = unat b"
proof -
  have "unat b < 2 ^ LENGTH('b)" by (rule unsigned_less)
  also have "(2::nat) ^ LENGTH('b) \<le> 2 ^ 32"
    using assms by (intro power_increasing) simp_all
  finally show ?thesis
    by (simp add: unsigned_ucast_eq take_bit_nat_eq_self)
qed

lemma operator_pluseq_uint_correct:
  fixes b :: "'b::len word"
  assumes "LENGTH('b) \<in> {8, 16, 32, 64}"
  shows "\<exists>el'. operator_pluseq_uint True b el = Inr el'
           \<and> length el' = length el
           \<and> value_of el' = (value_of el + unat b) mod 2 ^ (32 * length el)"
proof (cases "LENGTH('b) < 32")
  case True
  then have "unat (ucast b :: el_t) = unat b"
    by (intro unat_ucast_to_el) simp
  moreover have "sizeof b < sizeof_el_t"
    using True assms by (auto simp add: sizeof_def sizeof_el_t_def)
  ultimately show ?thesis
    using pluseq_limbs_value [of "ucast b :: el_t" el]
    by (simp add: operator_pluseq_uint_def assert_unsigned_int_type_def)
next
  case False
  then have m: "LENGTH('b) mod 32 = 0" using assms by auto
  have "\<not> sizeof b < sizeof_el_t" "sizeof b mod sizeof_el_t = 0"
    using False assms by (auto simp add: sizeof_def sizeof_el_t_def)
  then show ?thesis
    using pluseq_limbs_value [OF m, of b el]
    by (simp add: operator_pluseq_uint_def assert_unsigned_int_type_def)
qed

lemma operator_minuseq_uint_correct:
  fixes b :: "'b::len word"
  assumes "LENGTH('b) \<in> {8, 16, 32, 64}"
  shows "\<exists>el'. operator_minuseq_uint True b el = Inr el'
           \<and> length el' = length el
           \<and> int (value_of el') = (int (value_of el) - int (unat b)) mod 2 ^ (32 * length el)"
proof (cases "LENGTH('b) < 32")
  case True
  then have "unat (ucast b :: el_t) = unat b"
    by (intro unat_ucast_to_el) simp
  moreover have "sizeof b < sizeof_el_t"
    using True assms by (auto simp add: sizeof_def sizeof_el_t_def)
  ultimately show ?thesis
    using minuseq_limbs_value [of "ucast b :: el_t" el]
    by (simp add: operator_minuseq_uint_def assert_unsigned_int_type_def)
next
  case False
  then have m: "LENGTH('b) mod 32 = 0" using assms by auto
  have "\<not> sizeof b < sizeof_el_t" "sizeof b mod sizeof_el_t = 0"
    using False assms by (auto simp add: sizeof_def sizeof_el_t_def)
  then show ?thesis
    using minuseq_limbs_value [OF m, of b el]
    by (simp add: operator_minuseq_uint_def assert_unsigned_int_type_def)
qed

section \<open>Bit length and the binary logarithm\<close>

lemma bit_top_nat:
  fixes m :: nat
  assumes "m < 2 ^ Suc n"
  shows "bit m n \<longleftrightarrow> 2 ^ n \<le> m"
proof -
  have "m div 2 ^ n < 2"
    using assms by (simp add: less_mult_imp_div_less)
  then have "m div 2 ^ n = 0 \<or> m div 2 ^ n = 1" by auto
  moreover have "m div 2 ^ n = 0 \<longleftrightarrow> m < 2 ^ n"
    by (simp add: div_eq_0_iff)
  ultimately show ?thesis
    by (auto simp add: bit_nat_def)
qed

lemma bit_word_unat:
  fixes x :: "'a::len word"
  shows "bit x n \<longleftrightarrow> bit (unat x) n"
  by (auto simp add: bit_unsigned_iff dest: bit_imp_le_length)

lemma clz_from_bounds:
  fixes x :: "'a::len word"
  shows "x \<noteq> 0 \<Longrightarrow> unat x < 2 ^ n \<Longrightarrow>
     clz_from n x < n \<and> 2 ^ (n - clz_from n x - 1) \<le> unat x \<and> unat x < 2 ^ (n - clz_from n x)"
proof (induction n)
  case 0
  then have "unat x = 0" by simp
  then have "x = 0" by (simp add: unat_eq_0)
  with 0 show ?case by simp
next
  case (Suc n)
  show ?case
  proof (cases "bit x n")
    case True
    then have "2 ^ n \<le> unat x"
      using bit_top_nat [OF Suc.prems(2)] by (simp add: bit_word_unat)
    then show ?thesis using True Suc.prems(2) by simp
  next
    case False
    then have lt: "unat x < 2 ^ n"
      using bit_top_nat [OF Suc.prems(2)] by (simp add: bit_word_unat)
    from Suc.IH [OF Suc.prems(1) lt] False show ?thesis
      by (simp add: Suc_diff_Suc)
  qed
qed

lemma bit_length_unique:
  fixes v :: nat
  assumes "2 ^ (a - 1) \<le> v" "v < 2 ^ a" "2 ^ (b - 1) \<le> v" "v < 2 ^ b" "0 < a" "0 < b"
  shows "a = b"
proof -
  have "(2::nat) ^ (a - 1) < 2 ^ b" using assms(1,4) by (rule le_less_trans)
  then have "a - 1 < b" by simp
  moreover have "(2::nat) ^ (b - 1) < 2 ^ a" using assms(3,2) by (rule le_less_trans)
  then have "b - 1 < a" by simp
  ultimately show ?thesis using assms(5,6) by simp
qed

lemma builtin_clz_bounds:
  fixes x :: "'a::len word"
  assumes "x \<noteq> 0"
  shows "builtin_clz x < LENGTH('a) \<and> 2 ^ (LENGTH('a) - builtin_clz x - 1) \<le> unat x
     \<and> unat x < 2 ^ (LENGTH('a) - builtin_clz x)"
  unfolding builtin_clz_def
  by (rule clz_from_bounds [OF assms]) (rule unsigned_less)

lemma builtin_clz_ucast:
  fixes x :: "'a::len word"
  assumes "x \<noteq> 0" and "LENGTH('a) \<le> LENGTH('c::len)"
  shows "builtin_clz (ucast x :: 'c word) = builtin_clz x + (LENGTH('c) - LENGTH('a))"
proof -
  have "unat x < 2 ^ LENGTH('a)" by (rule unsigned_less)
  also have "(2::nat) ^ LENGTH('a) \<le> 2 ^ LENGTH('c)"
    using assms(2) by (intro power_increasing) simp_all
  finally have u: "unat (ucast x :: 'c word) = unat x"
    by (simp add: unsigned_ucast_eq take_bit_nat_eq_self)
  then have nz: "(ucast x :: 'c word) \<noteq> 0"
    using assms(1) by (metis unat_eq_0)
  define k where "k = builtin_clz x"
  define k' where "k' = builtin_clz (ucast x :: 'c word)"
  have a: "k < LENGTH('a)" "2 ^ (LENGTH('a) - k - 1) \<le> unat x" "unat x < 2 ^ (LENGTH('a) - k)"
    using builtin_clz_bounds [OF assms(1)] by (simp_all add: k_def)
  have c: "k' < LENGTH('c)" "2 ^ (LENGTH('c) - k' - 1) \<le> unat x" "unat x < 2 ^ (LENGTH('c) - k')"
    using builtin_clz_bounds [OF nz] u by (simp_all add: k'_def)
  have "LENGTH('a) - k = LENGTH('c) - k'"
    using a c by (intro bit_length_unique [of _ "unat x"]) simp_all
  then show ?thesis
    using a(1) c(1) assms(2) by (simp add: k_def k'_def)
qed

lemma bitlen_eq:
  fixes x :: "'a::len word"
  assumes "LENGTH('a) \<in> {8, 16, 32, 64}"
  shows "bitlen True x = (if x = 0 then int LENGTH('a) else int LENGTH('a) - int (builtin_clz x))"
proof (cases "x = 0")
  case True
  then show ?thesis using assms by (auto simp add: bitlen_def sizeof_def)
next
  case False
  consider "LENGTH('a) = 8" | "LENGTH('a) = 16" | "LENGTH('a) = 32" | "LENGTH('a) = 64"
    using assms by auto
  then show ?thesis
  proof cases
    case 1
    then show ?thesis
      using False builtin_clz_ucast [OF False, where 'c = 32]
      by (simp add: bitlen_def wrapped_builtin_clz_def to_unsigned_int_def sizeof_def)
  next
    case 2
    then show ?thesis
      using False builtin_clz_ucast [OF False, where 'c = 32]
      by (simp add: bitlen_def wrapped_builtin_clz_def to_unsigned_int_def sizeof_def)
  next
    case 3
    then show ?thesis
      using False builtin_clz_ucast [OF False, where 'c = 32]
      by (simp add: bitlen_def wrapped_builtin_clz_def to_unsigned_int_def sizeof_def)
  next
    case 4
    then show ?thesis
      using False builtin_clz_ucast [OF False, where 'c = 64]
      by (simp add: bitlen_def wrapped_builtin_clz_def to_unsigned_int_def sizeof_def)
  qed
qed

lemma bitlen_el_bounds:
  fixes x :: el_t
  assumes "x \<noteq> 0"
  shows "0 < nat (bitlen True x) \<and> 2 ^ (nat (bitlen True x) - 1) \<le> unat x
     \<and> unat x < 2 ^ nat (bitlen True x)"
proof -
  define l where "l = 32 - builtin_clz x"
  have k: "builtin_clz x < 32" "2 ^ (32 - builtin_clz x - 1) \<le> unat x"
      "unat x < 2 ^ (32 - builtin_clz x)"
    using builtin_clz_bounds [OF assms] by simp_all
  have "bitlen True x = int 32 - int (builtin_clz x)"
    using bitlen_eq [of x] assms by simp
  also have "\<dots> = int l"
    using k(1) by (simp add: l_def)
  finally have b: "nat (bitlen True x) = l" by simp
  show ?thesis
    unfolding b using k by (simp add: l_def)
qed

lemma value_of_zero_iff: "value_of el = 0 \<longleftrightarrow> (\<forall>j < length el. el ! j = 0)"
proof (induction el)
  case Nil
  then show ?case by simp
next
  case (Cons x xs)
  then show ?case
    by (auto simp add: nth_Cons unat_eq_0 split: nat.splits)
qed

section \<open>Signed operands\<close>

lemma uint_of_sint_nonneg:
  fixes b :: "'b::len word"
  assumes "0 \<le> sint b"
  shows "uint b = sint b"
proof -
  have "sint b < 2 ^ (LENGTH('b) - 1)" by (rule sint_lt)
  also have "(2::int) ^ (LENGTH('b) - 1) \<le> 2 ^ LENGTH('b)"
    by (intro power_increasing) simp_all
  finally have lt: "sint b < 2 ^ LENGTH('b)" .
  have "uint b = uint (word_of_int (sint b) :: 'b word)" by simp
  also have "\<dots> = take_bit LENGTH('b) (sint b)"
    by (rule uint_word_of_int_eq)
  also have "\<dots> = sint b"
    using assms lt by (simp add: take_bit_int_eq_self)
  finally show ?thesis .
qed

lemma uint_neg_of_sint_neg:
  fixes b :: "'b::len word"
  assumes "sint b < 0"
  shows "uint (- b) = - sint b"
proof -
  have "- (2 ^ (LENGTH('b) - 1)) \<le> sint b" by (rule sint_ge)
  then have "- sint b \<le> 2 ^ (LENGTH('b) - 1)" by simp
  also have "(2::int) ^ (LENGTH('b) - 1) < 2 ^ LENGTH('b)"
    by (intro power_strict_increasing) simp_all
  finally have lt: "- sint b < 2 ^ LENGTH('b)" .
  have "- b = (word_of_int (- sint b) :: 'b word)" by simp
  then have "uint (- b) = uint (word_of_int (- sint b) :: 'b word)" by simp
  also have "\<dots> = take_bit LENGTH('b) (- sint b)"
    by (rule uint_word_of_int_eq)
  also have "\<dots> = - sint b"
    using assms lt by (simp add: take_bit_int_eq_self)
  finally show ?thesis .
qed

lemma operator_pluseq_signed:
  fixes c :: "'c::len word"
  assumes "LENGTH('c) \<in> {8, 16, 32, 64}"
  shows "\<exists>r. operator_pluseq False c a = Inr r \<and> length r = length a
     \<and> int (value_of r) = (int (value_of a) + sint c) mod 2 ^ (32 * length a)"
proof (cases "0 \<le> sint c")
  case True
  obtain r where r: "operator_pluseq_uint True c a = Inr r" "length r = length a"
    "value_of r = (value_of a + unat c) mod 2 ^ (32 * length a)"
    using operator_pluseq_uint_correct [OF assms, of c a] by blast
  have "int (unat c) = sint c"
    using uint_of_sint_nonneg [OF True] by simp
  then have "int (value_of r) = (int (value_of a) + sint c) mod 2 ^ (32 * length a)"
    using r(3) by (simp add: of_nat_mod)
  then show ?thesis
    using True r by (simp add: operator_pluseq_def)
next
  case False
  then have neg: "sint c < 0" by simp
  obtain r where r: "operator_minuseq_uint True (- c) a = Inr r" "length r = length a"
    "int (value_of r) = (int (value_of a) - int (unat (- c))) mod 2 ^ (32 * length a)"
    using operator_minuseq_uint_correct [OF assms, of "- c" a] by blast
  have "int (unat (- c)) = - sint c"
    using uint_neg_of_sint_neg [OF neg] by simp
  then have "int (value_of r) = (int (value_of a) + sint c) mod 2 ^ (32 * length a)"
    using r(3) by simp
  then show ?thesis
    using False r by (simp add: operator_pluseq_def)
qed

lemma operator_minuseq_signed:
  fixes b :: "'b::len word"
  assumes "LENGTH('b) \<in> {8, 16, 32, 64}"
  shows "\<exists>r. operator_minuseq False b a = Inr r \<and> length r = length a
     \<and> int (value_of r) = (int (value_of a) - sint b) mod 2 ^ (32 * length a)"
proof (cases "0 \<le> sint b")
  case True
  obtain r where r: "operator_minuseq_uint True b a = Inr r" "length r = length a"
    "int (value_of r) = (int (value_of a) - int (unat b)) mod 2 ^ (32 * length a)"
    using operator_minuseq_uint_correct [OF assms, of b a] by blast
  have "int (unat b) = sint b"
    using uint_of_sint_nonneg [OF True] by simp
  then have "int (value_of r) = (int (value_of a) - sint b) mod 2 ^ (32 * length a)"
    using r(3) by simp
  then show ?thesis
    using True r by (simp add: operator_minuseq_def)
next
  case False
  then have neg: "sint b < 0" by simp
  obtain r where r: "operator_pluseq_uint True (- b) a = Inr r" "length r = length a"
    "value_of r = (value_of a + unat (- b)) mod 2 ^ (32 * length a)"
    using operator_pluseq_uint_correct [OF assms, of "- b" a] by blast
  have "int (unat (- b)) = - sint b"
    using uint_neg_of_sint_neg [OF neg] by simp
  then have "int (value_of r) = (int (value_of a) - sint b) mod 2 ^ (32 * length a)"
    using r(3) by (simp add: of_nat_mod)
  then show ?thesis
    using False r by (simp add: operator_minuseq_def)
qed

lemma ordering_signed_assert:
  "operator_gt False b el = Inl AssertionFailed"
  "operator_geq False b el = Inl AssertionFailed"
  "operator_lt False b el = Inl AssertionFailed"
  "operator_leq False b el = Inl AssertionFailed"
  by (simp_all add: operator_gt_def operator_gt_uint_def operator_geq_def operator_geq_uint_def
      operator_lt_def operator_lt_uint_def operator_leq_def operator_leq_uint_def
      assert_unsigned_int_type_def)

lemma upt_0_2: "[0..<2] = [0, Suc 0]"
  by (simp add: numeral_2_eq_2)

lemma muleq_wide_run:
  "fold (muleq_step_wide (0 :: el_t) (1 :: 64 word)) [0..<2] ([1, 0], 0, 0) = ([0, 0], 0, 0)"
  by (simp add: muleq_step_wide_def Let_def EL_SIZE_IN_BITS_def upt_0_2)

section \<open>Decimal rendering and parsing\<close>

declare uint_to_string_loop.simps [simp del]

declare decimal_digits_lsf.simps [simp del]

lemma fold_or_upt:
  "fold (\<lambda>i r. r \<or> P i) [k..<n] r0 \<longleftrightarrow> r0 \<or> (\<exists>i. k \<le> i \<and> i < n \<and> P i)"
proof (induction n)
  case 0
  then show ?case by simp
next
  case (Suc n)
  show ?case
  proof (cases "k \<le> n")
    case True
    then show ?thesis using Suc by (auto simp add: less_Suc_eq)
  next
    case False
    then show ?thesis by auto
  qed
qed

lemma operator_neq_zero:
  assumes "el \<noteq> []"
  shows "operator_neq False (0 :: 32 word) el = Inr (value_of el \<noteq> 0)"
proof -
  have "is_nonzero_starting_at_el 1 el \<longleftrightarrow> (\<exists>i. 1 \<le> i \<and> i < length el \<and> el ! i \<noteq> 0)"
    by (simp add: is_nonzero_starting_at_el_def fold_or_upt)
  moreover have "(el ! 0 \<noteq> 0 \<or> (\<exists>i. 1 \<le> i \<and> i < length el \<and> el ! i \<noteq> 0))
      \<longleftrightarrow> (\<exists>j < length el. el ! j \<noteq> 0)"
    using assms by (metis length_greater_0_conv less_one not_less)
  ultimately show ?thesis
    by (simp add: operator_neq_def operator_neq_uint_def assert_unsigned_int_type_def
        sizeof_def sizeof_el_t_def to_el_t_def value_of_zero_iff)
qed

lemma uint_to_string_loop_unfold:
  assumes "tmp \<noteq> []" and "i < length result"
  shows "\<exists>tmp1. length tmp1 = length tmp \<and> value_of tmp1 = value_of tmp div 10
     \<and> uint_to_string_loop tmp i result =
        (if value_of tmp div 10 \<noteq> 0
         then uint_to_string_loop tmp1 (i + 1)
                (result[i := char_of (of_char (CHR ''0'') + value_of tmp mod 10)])
         else Inr (result[i := char_of (of_char (CHR ''0'') + value_of tmp mod 10)], i + 1))"
proof -
  have ten: "(10 :: el_t) \<noteq> 0" "unat (10 :: el_t) = 10" by simp_all
  obtain r where m: "operator_mod 10 tmp = Inr (tmp, r)" "unat r = value_of tmp mod 10"
    using operator_mod_correct [OF ten(1), of tmp] ten(2) by auto
  obtain tmp1 r' where d: "operator_diveq (Outside 10) tmp = Inr (tmp1, r')"
    "length tmp1 = length tmp"
    "value_of tmp1 = value_of tmp div 10"
    using operator_diveq_correct [OF ten(1), of tmp] ten(2) by auto
  have ne: "tmp1 \<noteq> []" using d(2) assms(1) by auto
  have "uint_to_string_loop tmp i result =
        (if value_of tmp div 10 \<noteq> 0
         then uint_to_string_loop tmp1 (i + 1)
                (result[i := char_of (of_char (CHR ''0'') + value_of tmp mod 10)])
         else Inr (result[i := char_of (of_char (CHR ''0'') + value_of tmp mod 10)], i + 1))"
    using assms(2) m d operator_neq_zero [OF ne]
    by (subst uint_to_string_loop.simps) simp
  then show ?thesis using d(2,3) by blast
qed

lemma uint_to_string_loop_result:
  "tmp \<noteq> [] \<Longrightarrow> value_of tmp = v \<Longrightarrow>
     i + length (decimal_digits_lsf v) \<le> length result \<Longrightarrow>
     uint_to_string_loop tmp i result =
       Inr (take i result @ decimal_digits_lsf v
              @ drop (i + length (decimal_digits_lsf v)) result,
            i + length (decimal_digits_lsf v))"
proof (induction v arbitrary: tmp i result rule: less_induct)
  case (less v)
  define c where "c = char_of (of_char (CHR ''0'') + v mod 10 :: nat)"
  have dd: "decimal_digits_lsf v = c # (if v div 10 = 0 then [] else decimal_digits_lsf (v div 10))"
    by (subst decimal_digits_lsf.simps) (simp add: c_def)
  have i: "i < length result" using less.prems(3) dd by simp
  obtain tmp1 where t1: "length tmp1 = length tmp" "value_of tmp1 = v div 10"
    and u: "uint_to_string_loop tmp i result =
        (if v div 10 \<noteq> 0 then uint_to_string_loop tmp1 (i + 1) (result[i := c])
         else Inr (result[i := c], i + 1))"
    using uint_to_string_loop_unfold [OF less.prems(1) i] less.prems(2) by (auto simp add: c_def)
  have upd: "result[i := c] = take i result @ c # drop (Suc i) result"
    using i by (rule upd_conv_take_nth_drop)
  show ?case
  proof (cases "v div 10 = 0")
    case True
    then show ?thesis using u dd upd by simp
  next
    case False
    then have lt: "v div 10 < v" by simp
    have ne: "tmp1 \<noteq> []" using t1(1) less.prems(1) by auto
    define n where "n = length (decimal_digits_lsf (v div 10))"
    have len: "i + 1 + n \<le> length (result[i := c])"
      using less.prems(3) dd False by (simp add: n_def)
    have "uint_to_string_loop tmp1 (i + 1) (result[i := c]) =
       Inr (take (i + 1) (result[i := c]) @ decimal_digits_lsf (v div 10)
              @ drop (i + 1 + n) (result[i := c]), i + 1 + n)"
      unfolding n_def using less.IH [OF lt ne t1(2)] len by (simp add: n_def)
    moreover have "take (i + 1) (result[i := c]) = take i result @ [c]"
      using i by (simp add: upd)
    moreover have "drop (i + 1 + n) (result[i := c]) = drop (i + 1 + n) result"
      by simp
    ultimately show ?thesis
      using u False dd by (simp add: n_def)
  qed
qed

lemma digit_char_code:
  "d < 10 \<Longrightarrow> of_char (char_of (of_char (CHR ''0'') + d :: nat)) = 48 + d"
  by simp

lemma decimal_digits_lsf_set:
  "c \<in> set (decimal_digits_lsf v) \<Longrightarrow> 48 \<le> (of_char c :: nat) \<and> (of_char c :: nat) \<le> 57"
proof (induction v rule: decimal_digits_lsf.induct)
  case (1 v)
  define c0 where "c0 = char_of (of_char (CHR ''0'') + v mod 10 :: nat)"
  have d: "of_char c0 = 48 + v mod 10"
    unfolding c0_def by (rule digit_char_code) simp
  have "v mod 10 \<le> 9" by (simp add: less_Suc_eq_le [symmetric])
  then have c0: "48 \<le> (of_char c0 :: nat) \<and> (of_char c0 :: nat) \<le> 57"
    using d by simp
  have "decimal_digits_lsf v = c0 # (if v div 10 = 0 then [] else decimal_digits_lsf (v div 10))"
    by (subst decimal_digits_lsf.simps) (simp add: c0_def)
  then have "c = c0 \<or> (v div 10 \<noteq> 0 \<and> c \<in> set (decimal_digits_lsf (v div 10)))"
    using 1(2) by (auto split: if_splits)
  then show ?case using c0 1(1) by blast
qed

lemma decimal_digits_lsf_no_nul: "CHR 0x00 \<notin> set (decimal_digits_lsf v)"
  using decimal_digits_lsf_set [of "CHR 0x00" v] by auto

lemma lsf_value_decimal_digits: "lsf_value (decimal_digits_lsf v) = v"
proof (induction v rule: decimal_digits_lsf.induct)
  case (1 v)
  have d: "of_char (char_of (of_char (CHR ''0'') + v mod 10 :: nat)) = 48 + v mod 10"
    by (rule digit_char_code) simp
  show ?case
  proof (cases "v div 10 = 0")
    case True
    then have "v mod 10 = v" by (simp add: div_eq_0_iff)
    then show ?thesis using True d by (subst decimal_digits_lsf.simps) simp
  next
    case False
    then show ?thesis using 1 d by (subst decimal_digits_lsf.simps) simp
  qed
qed

lemma decimal_digits_lsf_length:
  "v < 10 ^ d \<Longrightarrow> 0 < d \<Longrightarrow> length (decimal_digits_lsf v) \<le> d"
proof (induction v arbitrary: d rule: decimal_digits_lsf.induct)
  case (1 v)
  show ?case
  proof (cases "v div 10 = 0")
    case True
    then show ?thesis using 1(3) by (subst decimal_digits_lsf.simps) simp
  next
    case False
    obtain d' where d: "d = Suc d'" using 1(3) by (cases d) simp_all
    have "v div 10 < 10 ^ d'"
      using 1(2) d by (simp add: less_mult_imp_div_less)
    moreover have "0 < d'"
      using False calculation by (cases d') simp_all
    ultimately have "length (decimal_digits_lsf (v div 10)) \<le> d'"
      using 1(1) False by simp
    then show ?thesis using False d by (subst decimal_digits_lsf.simps) simp
  qed
qed

lemma decimal_digits_lsf_zero: "decimal_digits_lsf 0 = ''0''"
  by code_simp

lemma uint_to_string_buf_result:
  assumes "x \<noteq> []" and "length (decimal_digits_lsf (value_of x)) \<le> max_digits"
  shows "uint_to_string_buf max_digits x = Inr (rev (decimal_digits_lsf (value_of x)))"
proof -
  define ds where "ds = decimal_digits_lsf (value_of x)"
  define buf where "buf = replicate (max_digits + 1) (CHR 0x00)"
  define n where "n = length ds"
  have n: "n \<le> max_digits" using assms(2) by (simp add: n_def ds_def)
  have loop: "uint_to_string_loop x 0 buf = Inr (ds @ drop n buf, n)"
    using uint_to_string_loop_result [OF assms(1) refl, of 0 buf] n
    by (simp add: ds_def n_def buf_def)
  define result where "result = ds @ drop n buf"
  have len: "length result = max_digits + 1"
    using n by (simp add: result_def buf_def n_def)
  have r1: "result[n := CHR 0x00] = ds @ (drop n buf)[0 := CHR 0x00]"
    by (simp add: result_def list_update_append n_def)
  have tk: "take n (result[n := CHR 0x00]) = ds"
    by (simp add: result_def n_def)
  have "drop n (result[n := CHR 0x00]) = (drop n buf)[0 := CHR 0x00]"
    unfolding r1 by (simp add: n_def)
  moreover have "drop n buf = CHR 0x00 # replicate (max_digits - n) (CHR 0x00)"
    using n by (simp add: buf_def Suc_diff_le flip: replicate_Suc)
  ultimately have dr: "drop n (result[n := CHR 0x00]) = CHR 0x00 # replicate (max_digits - n) (CHR 0x00)"
    by simp
  have nn: "\<And>c. c \<in> set (rev ds) \<Longrightarrow> c \<noteq> CHR 0x00"
    using decimal_digits_lsf_no_nul [of "value_of x"] by (auto simp add: ds_def)
  have "takeWhile (\<lambda>c. c \<noteq> CHR 0x00) (rev ds @ CHR 0x00 # replicate (max_digits - n) (CHR 0x00))
      = rev ds @ takeWhile (\<lambda>c. c \<noteq> CHR 0x00) (CHR 0x00 # replicate (max_digits - n) (CHR 0x00))"
    by (rule takeWhile_append2) (rule nn)
  then have "takeWhile (\<lambda>c. c \<noteq> CHR 0x00) (rev ds @ CHR 0x00 # replicate (max_digits - n) (CHR 0x00))
      = rev ds"
    by simp
  moreover have "uint_to_string_loop x 0 buf = Inr (result, n)"
    by (simp add: loop result_def)
  ultimately show ?thesis
    unfolding uint_to_string_buf_def buf_def [symmetric] ds_def [symmetric]
    using len n tk dr by (simp add: Let_def)
qed

lemma set_zero_fold_nth:
  "n \<le> length el \<Longrightarrow>
     length (fold (\<lambda>i e. e[i := 0]) [0..<n] el) = length el \<and>
     (\<forall>j < length el. fold (\<lambda>i e. e[i := 0]) [0..<n] el ! j = (if j < n then 0 else el ! j))"
  by (induction n) (auto simp add: nth_list_update less_Suc_eq)

lemma set_zero_value: "length (set_zero el) = length el \<and> value_of (set_zero el) = 0"
  using set_zero_fold_nth [of "length el" el]
  by (simp add: set_zero_def set_zero_starting_at_el_def value_of_zero_iff)

lemma operator_muleq_ten:
  "\<exists>r. operator_muleq False (10 :: 32 word) el = Inr r \<and> length r = length el
     \<and> value_of r = (value_of el * 10) mod 2 ^ (32 * length el)"
proof -
  have "operator_muleq False (10 :: 32 word) el = Inr (muleq_limbs (10 :: 32 word) el)"
    by (simp add: operator_muleq_def operator_muleq_uint_def assert_unsigned_int_type_def
        sizeof_def sizeof_el_t_def)
  then show ?thesis
    using muleq_limbs_el_value [of "10 :: 32 word" el] by simp
qed

lemma set_from_str_step_digit:
  assumes "48 \<le> (of_char c :: nat)" and "(of_char c :: nat) \<le> 57"
  shows "\<exists>r. set_from_str_step c (Inr el) = Inr r \<and> length r = length el
     \<and> value_of r = (value_of el * 10 + (of_char c - 48)) mod 2 ^ (32 * length el)"
proof -
  define k where "k = (of_char c :: nat) - of_char (CHR ''0'')"
  define d where "d = (of_nat k :: el_t)"
  have k: "k = of_char c - 48" by (simp add: k_def)
  then have "k < 2 ^ 32" using assms by simp
  then have "unat d = k"
    unfolding d_def by (simp only: unat_of_nat) simp
  then have d: "unat d = of_char c - 48" using k by simp
  obtain r1 where r1: "operator_muleq False (10 :: 32 word) el = Inr r1" "length r1 = length el"
    "value_of r1 = (value_of el * 10) mod 2 ^ (32 * length el)"
    using operator_muleq_ten [of el] by blast
  obtain r2 where r2: "operator_pluseq_uint True d r1 = Inr r2" "length r2 = length r1"
    "value_of r2 = (value_of r1 + unat d) mod 2 ^ (32 * length r1)"
    using operator_pluseq_uint_correct [of d r1] by auto
  have "(of_nat (of_char c) - 48 :: el_t) = d"
    using assms by (simp add: d_def k)
  then have "set_from_str_step c (Inr el) = Inr r2"
    using assms r1(1) r2(1)
    by (simp add: set_from_str_step_def operator_pluseq_def)
  moreover have "value_of r2 = (value_of el * 10 + (of_char c - 48)) mod 2 ^ (32 * length el)"
    using r2(3) r1(2,3) d by (simp add: mod_add_left_eq)
  ultimately show ?thesis using r1(2) r2(2) by simp
qed

lemma lsf_value_Cons: "lsf_value (c # cs) = (of_char c - 48) + 10 * lsf_value cs"
proof -
  have "of_char (CHR ''0'') = (48 :: nat)" by simp
  then show ?thesis by (simp only: lsf_value.simps)
qed

lemma set_from_str_fold:
  "(\<forall>c \<in> set cs. 48 \<le> (of_char c :: nat) \<and> (of_char c :: nat) \<le> 57) \<Longrightarrow> value_of z = 0 \<Longrightarrow>
     \<exists>r. fold set_from_str_step (rev cs) (Inr z) = Inr r \<and> length r = length z
       \<and> value_of r = lsf_value cs mod 2 ^ (32 * length z)"
proof (induction cs)
  case Nil
  then show ?case by simp
next
  case (Cons c cs)
  obtain r1 where r1: "fold set_from_str_step (rev cs) (Inr z) = Inr r1" "length r1 = length z"
    "value_of r1 = lsf_value cs mod 2 ^ (32 * length z)"
    using Cons by auto
  have c: "48 \<le> (of_char c :: nat)" "(of_char c :: nat) \<le> 57"
    using Cons.prems(1) by simp_all
  obtain r2 where r2: "set_from_str_step c (Inr r1) = Inr r2" "length r2 = length r1"
    "value_of r2 = (value_of r1 * 10 + (of_char c - 48)) mod 2 ^ (32 * length r1)"
    using set_from_str_step_digit [OF c, of r1] by blast
  have "fold set_from_str_step (rev (c # cs)) (Inr z) = Inr r2"
    using r1(1) r2(1) by simp
  moreover have "value_of r2 = lsf_value (c # cs) mod 2 ^ (32 * length z)"
  proof -
    have "value_of r2 = (lsf_value cs mod 2 ^ (32 * length z) * 10 + (of_char c - 48))
        mod 2 ^ (32 * length z)"
      using r2(3) r1(2,3) by simp
    also have "\<dots> = (lsf_value cs * 10 + (of_char c - 48)) mod 2 ^ (32 * length z)"
      by (metis mod_add_left_eq mod_mult_left_eq)
    finally show ?thesis
      unfolding lsf_value_Cons by (simp add: ac_simps)
  qed
  ultimately show ?case using r1(2) r2(2) by simp
qed

lemma set_from_str_decimal:
  assumes "v < 2 ^ (32 * length y)"
  shows "\<exists>r. set_from_str (rev (decimal_digits_lsf v)) y = Inr r \<and> length r = length y
     \<and> value_of r = v"
proof -
  define ds where "ds = decimal_digits_lsf v"
  have dig: "\<forall>c \<in> set ds. 48 \<le> (of_char c :: nat) \<and> (of_char c :: nat) \<le> 57"
    using decimal_digits_lsf_set [of _ v] by (auto simp add: ds_def)
  have "\<And>c. c \<in> set (rev ds) \<Longrightarrow> c \<noteq> CHR 0x00"
    using decimal_digits_lsf_no_nul [of v] by (auto simp add: ds_def)
  then have tw: "takeWhile (\<lambda>c. c \<noteq> CHR 0x00) (rev ds) = rev ds"
    by simp
  obtain r where r: "fold set_from_str_step (rev ds) (Inr (set_zero y)) = Inr r"
    "length r = length (set_zero y)"
    "value_of r = lsf_value ds mod 2 ^ (32 * length (set_zero y))"
    using set_from_str_fold [OF dig, of "set_zero y"] set_zero_value [of y] by auto
  have "value_of r = v"
    using r(3) assms set_zero_value [of y] by (simp add: ds_def lsf_value_decimal_digits)
  then show ?thesis
    unfolding set_from_str_def ds_def [symmetric] tw
    using r(1,2) set_zero_value [of y] by simp
qed

lemma uint_to_string_loop_overflow:
  "tmp \<noteq> [] \<Longrightarrow> value_of tmp = v \<Longrightarrow>
     length result < i + length (decimal_digits_lsf v) \<Longrightarrow>
     uint_to_string_loop tmp i result = Inl BufferOverflow"
proof (induction v arbitrary: tmp i result rule: less_induct)
  case (less v)
  define c where "c = char_of (of_char (CHR ''0'') + v mod 10 :: nat)"
  have dd: "decimal_digits_lsf v = c # (if v div 10 = 0 then [] else decimal_digits_lsf (v div 10))"
    by (subst decimal_digits_lsf.simps) (simp add: c_def)
  show ?case
  proof (cases "length result \<le> i")
    case True
    then show ?thesis by (subst uint_to_string_loop.simps) simp
  next
    case False
    then have i: "i < length result" by simp
    obtain tmp1 where t1: "length tmp1 = length tmp" "value_of tmp1 = v div 10"
      and u: "uint_to_string_loop tmp i result =
          (if v div 10 \<noteq> 0 then uint_to_string_loop tmp1 (i + 1) (result[i := c])
           else Inr (result[i := c], i + 1))"
      using uint_to_string_loop_unfold [OF less.prems(1) i] less.prems(2) by (auto simp add: c_def)
    have nz: "v div 10 \<noteq> 0"
    proof
      assume "v div 10 = 0"
      then have "length (decimal_digits_lsf v) = 1" using dd by simp
      then show False using less.prems(3) i by simp
    qed
    then have lt: "v div 10 < v" by simp
    have ne: "tmp1 \<noteq> []" using t1(1) less.prems(1) by auto
    have "length (result[i := c]) < (i + 1) + length (decimal_digits_lsf (v div 10))"
      using less.prems(3) dd nz by simp
    then have "uint_to_string_loop tmp1 (i + 1) (result[i := c]) = Inl BufferOverflow"
      by (rule less.IH [OF lt ne t1(2)])
    then show ?thesis using u nz by simp
  qed
qed

lemma uint_to_string_buf_overflow:
  assumes "x \<noteq> []" and "max_digits < length (decimal_digits_lsf (value_of x))"
  shows "uint_to_string_buf max_digits x = Inl BufferOverflow"
proof (cases "length (decimal_digits_lsf (value_of x)) = max_digits + 1")
  case True
  define ds where "ds = decimal_digits_lsf (value_of x)"
  define buf where "buf = replicate (max_digits + 1) (CHR 0x00)"
  have n: "length ds = max_digits + 1" using True by (simp add: ds_def)
  have loop: "uint_to_string_loop x 0 buf = Inr (ds @ drop (length ds) buf, length ds)"
    using uint_to_string_loop_result [OF assms(1) refl, of 0 buf] n
    by (simp add: ds_def buf_def)
  have "length (ds @ drop (length ds) buf) \<le> length ds"
    using n by (simp add: buf_def)
  then show ?thesis
    unfolding uint_to_string_buf_def buf_def [symmetric] using loop by simp
next
  case False
  then have "length (replicate (max_digits + 1) (CHR 0x00))
      < 0 + length (decimal_digits_lsf (value_of x))"
    using assms(2) by simp
  then have "uint_to_string_loop x 0 (replicate (max_digits + 1) (CHR 0x00)) = Inl BufferOverflow"
    by (rule uint_to_string_loop_overflow [OF assms(1) refl])
  then show ?thesis by (simp add: uint_to_string_buf_def)
qed

lemma decimal_digits_lsf_length_lower:
  "10 ^ d \<le> v \<Longrightarrow> d < length (decimal_digits_lsf v)"
proof (induction v arbitrary: d rule: decimal_digits_lsf.induct)
  case (1 v)
  show ?case
  proof (cases d)
    case 0
    then show ?thesis by (subst decimal_digits_lsf.simps) simp
  next
    case (Suc d')
    then have "10 ^ d' * 10 \<le> v" using 1(2) by simp
    then have le: "10 ^ d' \<le> v div 10"
      by (simp add: less_eq_div_iff_mult_less_eq)
    have "(0::nat) < 10 ^ d'" by simp
    then have nz: "v div 10 \<noteq> 0" using le by linarith
    have "d' < length (decimal_digits_lsf (v div 10))"
      using 1(1) nz le by simp
    then show ?thesis using nz Suc by (subst decimal_digits_lsf.simps) simp
  qed
qed

section \<open>The buffer of the rendering\<close>

declare significant_bits.simps [simp del]

lemma uint_to_string_fits:
  assumes "x \<noteq> []" and "MAX_DIGITS (SIZE_IN_BITS x) = Inr m" and "m \<noteq> 2147483647"
    and "0 < m" and "value_of x < 10 ^ nat m"
  shows "uint_to_string x = Inr (rev (decimal_digits_lsf (value_of x)))"
proof -
  have "length (decimal_digits_lsf (value_of x)) \<le> nat m"
    using assms(5,4) by (intro decimal_digits_lsf_length) simp_all
  then have "uint_to_string_buf (nat m) x = Inr (rev (decimal_digits_lsf (value_of x)))"
    by (rule uint_to_string_buf_result [OF assms(1)])
  then show ?thesis
    using assms(2,3) by (simp add: uint_to_string_def)
qed

lemma uint_to_string_overflow:
  assumes "x \<noteq> []" and "MAX_DIGITS (SIZE_IN_BITS x) = Inr m" and "m \<noteq> 2147483647"
    and "10 ^ nat m \<le> value_of x"
  shows "uint_to_string x = Inl BufferOverflow"
proof -
  have "nat m < length (decimal_digits_lsf (value_of x))"
    using assms(4) by (rule decimal_digits_lsf_length_lower)
  then have "uint_to_string_buf (nat m) x = Inl BufferOverflow"
    by (rule uint_to_string_buf_overflow [OF assms(1)])
  then show ?thesis
    using assms(2,3) by (simp add: uint_to_string_def)
qed

lemma str_set_from_str:
  assumes "x \<noteq> []" and "length y = length x"
    and "MAX_DIGITS (SIZE_IN_BITS x) = Inr m" and "m \<noteq> 2147483647"
    and "0 < m" and "value_of x < 10 ^ nat m"
  shows "\<exists>s. str x = Inr s \<and> set_from_str s y = Inr x"
proof -
  define s where "s = rev (decimal_digits_lsf (value_of x))"
  have s: "str x = Inr s"
    using uint_to_string_fits [OF assms(1,3,4,5,6)] by (simp add: str_def s_def)
  have "value_of x < 2 ^ (32 * length y)"
    using value_of_lt [of x] assms(2) by simp
  then obtain r where r: "set_from_str s y = Inr r" "length r = length y" "value_of r = value_of x"
    using set_from_str_decimal [of "value_of x" y] by (auto simp add: s_def)
  have "r = x"
    using r(2,3) assms(2) by (intro value_of_inj) simp_all
  then show ?thesis using s r(1) by simp
qed

lemma LOG_BASE10_2_nearest:
  "LOG_BASE10_2_numerator < 2 ^ 53
   \<and> \<bar>LOG_BASE10_2 - 301029995663981195 / 10 ^ 18\<bar> < 1 / 2 ^ 55"
  by (simp add: LOG_BASE10_2_def LOG_BASE10_2_numerator_def abs_if)

lemma ceil_constexpr_quotient:
  assumes "0 < k"
  shows "ceil_constexpr (of_nat p / of_nat k) =
     (if 2147483648 * k \<le> p then Inl IllFormed
      else if p mod k = 0 then Inr (int (p div k))
      else if p div k = 2147483647 then Inl IllFormed
      else Inr (int (p div k) + 1))"
proof -
  define d :: rat where "d = of_nat p / of_nat k"
  have fl: "\<lfloor>d\<rfloor> = int (p div k)"
    unfolding d_def by (simp add: floor_divide_of_nat_eq)
  have d0: "0 \<le> d" by (simp add: d_def)
  have big: "2147483648 \<le> d \<longleftrightarrow> 2147483648 * k \<le> p"
  proof -
    have "2147483648 \<le> d \<longleftrightarrow> (of_nat (2147483648 * k) :: rat) \<le> of_nat p"
      using assms by (simp add: d_def field_simps)
    then show ?thesis by (simp only: of_nat_le_iff)
  qed
  have whole: "of_int (int (p div k)) = d \<longleftrightarrow> p mod k = 0"
  proof -
    have "of_int (int (p div k)) = d \<longleftrightarrow> (of_nat (p div k * k) :: rat) = of_nat p"
      using assms by (simp add: d_def field_simps)
    also have "\<dots> \<longleftrightarrow> p div k * k = p"
      by (simp only: of_nat_eq_iff)
    also have "\<dots> \<longleftrightarrow> p mod k = 0"
      using div_mult_mod_eq [of p k] by linarith
    finally show ?thesis .
  qed
  have pos: "p mod k \<noteq> 0 \<Longrightarrow> 0 < d"
    using assms by (auto simp add: d_def intro!: divide_pos_pos Nat.gr0I)
  show ?thesis
    unfolding d_def [symmetric] ceil_constexpr_def Let_def
    using d0 big whole pos fl by (auto simp del: of_int_of_nat_eq)
qed

lemma MAX_DIGITS_eval:
  "MAX_DIGITS N =
     (let p = round_to_double (round_to_double N * LOG_BASE10_2_numerator) in
      if 2147483648 * 2 ^ 54 \<le> p then Inl IllFormed
      else if p mod 2 ^ 54 = 0 then Inr (int (p div 2 ^ 54))
      else if p div 2 ^ 54 = 2147483647 then Inl IllFormed
      else Inr (int (p div 2 ^ 54) + 1))"
proof -
  have "(2::rat) ^ 54 = of_nat (2 ^ 54)" by simp
  then show ?thesis
    unfolding MAX_DIGITS_def times_LOG_BASE10_2_def Let_def
    by (simp only: ceil_constexpr_quotient [of "2 ^ 54"] zero_less_power zero_less_numeral)
qed

lemma MAX_DIGITS_64: "MAX_DIGITS 64 = Inr 20"
  by (simp add: MAX_DIGITS_eval round_to_double_def
      LOG_BASE10_2_numerator_def Let_def significant_bits.simps)

lemma MAX_DIGITS_1233278784: "MAX_DIGITS 1233278784 = Inr 371253907"
  by (simp add: MAX_DIGITS_eval round_to_double_def
      LOG_BASE10_2_numerator_def Let_def significant_bits.simps)

lemma MAX_DIGITS_common:
  "MAX_DIGITS 32 = Inr 10 \<and> MAX_DIGITS 128 = Inr 39 \<and> MAX_DIGITS 256 = Inr 78
   \<and> MAX_DIGITS 512 = Inr 155 \<and> MAX_DIGITS 1024 = Inr 309"
  by (simp add: MAX_DIGITS_eval round_to_double_def
      LOG_BASE10_2_numerator_def Let_def significant_bits.simps)

section \<open>A size at which the buffer is too small\<close>

text \<open>
  The natural logarithm of \<open>1 / (1 - u)\<close> lies between a partial sum of its
  series and that sum increased by a geometric bound of the rest. With
  \<open>u = 1 / 16\<close>, \<open>1 / 25\<close> and \<open>1 / 81\<close> this gives the logarithms of 2 and of 10
  to more than twenty digits, enough to compare \<open>2 ^ 1233278784\<close> with
  \<open>10 ^ 371253907\<close> without computing either.
\<close>

lemma ln_series_bounds:
  fixes u :: real
  assumes "0 < u" and "u < 1"
  shows "(\<Sum>n<M. u ^ Suc n / real (Suc n)) \<le> - ln (1 - u)"
    and "- ln (1 - u) \<le> (\<Sum>n<M. u ^ Suc n / real (Suc n)) + u ^ Suc M / (1 - u)"
proof -
  define f where "f = (\<lambda>n. u ^ Suc n / real (Suc n))"
  have f0: "0 \<le> f n" for n
    using assms by (simp add: f_def)
  have fle: "f n \<le> u * u ^ n" for n
  proof -
    have "u ^ Suc n / real (Suc n) \<le> u ^ Suc n / 1"
      using assms by (intro divide_left_mono) simp_all
    then show ?thesis by (simp add: f_def)
  qed
  have sg: "summable (\<lambda>n. u * u ^ n)"
    using assms by (intro summable_mult) simp
  have sf: "summable f"
    by (rule summable_comparison_test' [OF sg, of 0]) (simp add: f0 fle)
  have "ln (1 - u) = (\<Sum>n. (- 1) ^ n * (1 / real (n + 1)) * ((1 - u) - 1) ^ Suc n)"
    using assms by (intro ln_series) simp_all
  also have "(\<lambda>n. (- 1) ^ n * (1 / real (n + 1)) * ((1 - u) - 1) ^ Suc n) = (\<lambda>n. - f n)"
  proof
    fix n
    have "((1 - u) - 1) ^ Suc n = (- u) ^ Suc n" by simp
    also have "\<dots> = (- 1) ^ Suc n * u ^ Suc n" by (rule power_minus)
    finally have "(- 1) ^ n * (1 / real (n + 1)) * ((1 - u) - 1) ^ Suc n
        = ((- 1) ^ n * (- 1) ^ Suc n) * (u ^ Suc n / real (Suc n))"
      by (simp only: Suc_eq_plus1) (simp add: field_simps)
    also have "(- 1 :: real) ^ n * (- 1) ^ Suc n = - 1"
      by (simp flip: power_mult_distrib)
    finally show "(- 1) ^ n * (1 / real (n + 1)) * ((1 - u) - 1) ^ Suc n = - f n"
      by (simp add: f_def)
  qed
  also have "(\<Sum>n. - f n) = - suminf f"
    by (rule suminf_minus [OF sf])
  finally have L: "- ln (1 - u) = suminf f" by simp
  have "(\<Sum>n<M. f n) \<le> suminf f"
    by (rule sum_le_suminf [OF sf]) (simp_all add: f0)
  then show "(\<Sum>n<M. u ^ Suc n / real (Suc n)) \<le> - ln (1 - u)"
    unfolding L f_def .
  have sp: "suminf f = (\<Sum>n. f (n + M)) + (\<Sum>i<M. f i)"
    by (rule suminf_split_initial_segment [OF sf])
  have "(\<Sum>n. f (n + M)) \<le> (\<Sum>n. u ^ Suc M * u ^ n)"
  proof (rule suminf_le)
    show "summable (\<lambda>n. f (n + M))"
      by (rule summable_ignore_initial_segment [OF sf])
    show "summable (\<lambda>n. u ^ Suc M * u ^ n)"
      using assms by (intro summable_mult) simp
    show "f (n + M) \<le> u ^ Suc M * u ^ n" for n
      using fle [of "n + M"] by (simp add: power_add mult_ac)
  qed
  also have "\<dots> = u ^ Suc M * (1 / (1 - u))"
    using assms by (simp add: suminf_mult suminf_geometric)
  finally have "suminf f \<le> (\<Sum>i<M. f i) + u ^ Suc M / (1 - u)"
    using sp by simp
  then show "- ln (1 - u) \<le> (\<Sum>n<M. u ^ Suc n / real (Suc n)) + u ^ Suc M / (1 - u)"
    unfolding L f_def .
qed

lemma ln_16_15_lower: "64538521137571171611499 / 10 ^ 24 \<le> ln (16 / 15 :: real)"
proof -
  have "(\<Sum>n<14. (1 / 16) ^ Suc n / real (Suc n)) \<le> - ln (1 - 1 / 16 :: real)"
    by (rule ln_series_bounds) simp_all
  moreover have "- ln (1 - 1 / 16 :: real) = ln (16 / 15)"
    by (simp flip: ln_inverse)
  moreover have "64538521137571171611499 / 10 ^ 24 \<le> (\<Sum>n<14. (1 / 16 :: real) ^ Suc n / real (Suc n))"
    by (simp add: eval_nat_numeral)
  ultimately show ?thesis by linarith
qed

lemma ln_25_24_upper: "ln (25 / 24 :: real) \<le> 40821994520255129580548 / 10 ^ 24"
proof -
  have "- ln (1 - 1 / 25 :: real)
      \<le> (\<Sum>n<13. (1 / 25) ^ Suc n / real (Suc n)) + (1 / 25) ^ Suc 13 / (1 - 1 / 25)"
    by (rule ln_series_bounds) simp_all
  moreover have "- ln (1 - 1 / 25 :: real) = ln (25 / 24)"
    by (simp flip: ln_inverse)
  moreover have "(\<Sum>n<13. (1 / 25 :: real) ^ Suc n / real (Suc n)) + (1 / 25) ^ Suc 13 / (1 - 1 / 25)
      \<le> 40821994520255129580548 / 10 ^ 24"
    by (simp add: eval_nat_numeral)
  ultimately show ?thesis by linarith
qed

lemma ln_81_80_upper: "ln (81 / 80 :: real) \<le> 12422519998557153386256 / 10 ^ 24"
proof -
  have "- ln (1 - 1 / 81 :: real)
      \<le> (\<Sum>n<9. (1 / 81) ^ Suc n / real (Suc n)) + (1 / 81) ^ Suc 9 / (1 - 1 / 81)"
    by (rule ln_series_bounds) simp_all
  moreover have "- ln (1 - 1 / 81 :: real) = ln (81 / 80)"
    by (simp flip: ln_inverse)
  moreover have "(\<Sum>n<9. (1 / 81 :: real) ^ Suc n / real (Suc n)) + (1 / 81) ^ Suc 9 / (1 - 1 / 81)
      \<le> 12422519998557153386256 / 10 ^ 24"
    by (simp add: eval_nat_numeral)
  ultimately show ?thesis by linarith
qed

lemma ln_quotients:
  "ln (16 / 15 :: real) = 4 * ln 2 - ln 3 - ln 5"
  "ln (25 / 24 :: real) = 2 * ln 5 - 3 * ln 2 - ln 3"
  "ln (81 / 80 :: real) = 4 * ln 3 - 4 * ln 2 - ln 5"
proof -
  have p: "ln (16 :: real) = 4 * ln 2" "ln (25 :: real) = 2 * ln 5" "ln (81 :: real) = 4 * ln 3"
    "ln (8 :: real) = 3 * ln 2"
    using ln_realpow [of "2 :: real" 4] ln_realpow [of "5 :: real" 2] ln_realpow [of "3 :: real" 4]
      ln_realpow [of "2 :: real" 3]
    by simp_all
  have m: "ln (15 :: real) = ln 3 + ln 5" "ln (24 :: real) = ln 8 + ln 3" "ln (80 :: real) = ln 16 + ln 5"
    using ln_mult [of "3 :: real" 5] ln_mult [of "8 :: real" 3] ln_mult [of "16 :: real" 5]
    by simp_all
  show "ln (16 / 15 :: real) = 4 * ln 2 - ln 3 - ln 5"
    using ln_div [of "16 :: real" 15] p m by simp
  show "ln (25 / 24 :: real) = 2 * ln 5 - 3 * ln 2 - ln 3"
    using ln_div [of "25 :: real" 24] p m by simp
  show "ln (81 / 80 :: real) = 4 * ln 3 - 4 * ln 2 - ln 5"
    using ln_div [of "81 :: real" 80] p m by simp
qed

lemma ln_10_ln_2_ratio: "371253907 * ln (10 :: real) < 1233278784 * ln 2"
proof -
  have t: "ln (10 :: real) = ln 2 + ln 5"
    using ln_mult [of "2 :: real" 5] by simp
  show ?thesis
    using ln_16_15_lower ln_25_24_upper ln_81_80_upper
    unfolding ln_quotients t by simp
qed

lemma pow10_less_pow2:
  assumes "real D * ln 10 < real N * ln 2"
  shows "(10 :: nat) ^ D < 2 ^ N"
proof -
  have "exp (real D * ln 10) < exp (real N * ln 2)"
    using assms by simp
  then have "(10 :: real) ^ D < 2 ^ N"
    by (simp add: exp_of_nat_mult)
  then have "real (10 ^ D) < real (2 ^ N)"
    by simp
  then show ?thesis
    by (simp only: of_nat_less_iff)
qed

lemma value_of_replicate_max: "value_of (replicate n (- 1)) + 1 = 2 ^ (32 * n)"
proof (induction n)
  case 0
  then show ?case by simp
next
  case (Suc n)
  have "unat (- 1 :: el_t) + 1 = 2 ^ 32"
    by (simp add: unsigned_minus_1_eq_mask mask_eq_exp_minus_1)
  then have "value_of (replicate (Suc n) (- 1)) + 1
      = 2 ^ 32 * (value_of (replicate n (- 1)) + 1)"
    by simp
  then show ?case
    unfolding Suc.IH by (simp add: power_add)
qed

lemma pow10_le_all_ones:
  assumes "real D * ln 10 < real (32 * n) * ln 2"
  shows "10 ^ D \<le> value_of (replicate n (- 1))"
proof -
  have "(10 :: nat) ^ D < 2 ^ (32 * n)"
    using assms by (rule pow10_less_pow2)
  then show ?thesis
    unfolding value_of_replicate_max [of n, symmetric] by simp
qed

lemma uint_to_string_all_ones_overflow:
  "uint_to_string (replicate 38539962 (- 1)) = Inl BufferOverflow
   \<and> 371253907 < length (decimal_digits_lsf (value_of (replicate 38539962 (- 1))))"
proof -
  define x :: bui where "x = replicate 38539962 (- 1)"
  have ne: "x \<noteq> []" by (simp add: x_def)
  have "SIZE_IN_BITS x = 1233278784"
    by (simp add: x_def SIZE_IN_BITS_def SIZE_IN_ELS_def EL_SIZE_IN_BITS_def)
  then have m: "MAX_DIGITS (SIZE_IN_BITS x) = Inr 371253907"
    by (simp only: MAX_DIGITS_1233278784)
  have "real (nat 371253907) * ln 10 < real (32 * 38539962) * ln 2"
    using ln_10_ln_2_ratio by simp
  then have big: "10 ^ nat 371253907 \<le> value_of x"
    unfolding x_def by (rule pow10_le_all_ones)
  have "uint_to_string x = Inl BufferOverflow"
    by (rule uint_to_string_overflow [OF ne m _ big]) simp
  moreover have "nat 371253907 < length (decimal_digits_lsf (value_of x))"
    using big by (rule decimal_digits_lsf_length_lower)
  then have "371253907 < length (decimal_digits_lsf (value_of x))"
    by simp
  ultimately show ?thesis
    unfolding x_def by blast
qed

lemma MAX_DIGITS_below_log: "real 371253907 < real 1233278784 * log 10 2"
proof -
  have "0 < ln (10 :: real)" by simp
  moreover have "371253907 * ln (10 :: real) < 1233278784 * ln 2"
    by (rule ln_10_ln_2_ratio)
  ultimately have "371253907 < 1233278784 * ln 2 / ln (10 :: real)"
    by (simp add: pos_less_divide_eq)
  then show ?thesis
    by (simp add: log_def)
qed

section \<open>Verified properties\<close>

text \<open>
  C1. For every magnitude \<open>v\<close> and every unsigned native operand \<open>b\<close> of width 8,
  16, 32 or 64, add-assign returns without an error and leaves the magnitude,
  with its number of limbs unchanged, holding \<open>(v + b) mod 2 ^ N\<close>: the first
  loop adds the operand's limbs with the carry, the second one passes the
  carry on, and an overflow past the top limb wraps and is not reported. The
  carry test of the source, sum below addend, is the test sum below previous
  value.
\<close>

theorem operator_pluseq_uint_value:
  fixes b :: "'b::len word"
  assumes "LENGTH('b) \<in> {8, 16, 32, 64}"
  shows "\<exists>el'. operator_pluseq_uint True b el = Inr el'
           \<and> SIZE_IN_ELS el' = SIZE_IN_ELS el
           \<and> value_of el' = (value_of el + unat b) mod 2 ^ SIZE_IN_BITS el
           \<and> (\<forall>previous addend :: el_t.
                 (previous + addend < addend) = (previous + addend < previous))"
  using operator_pluseq_uint_correct [OF assms, of b el]
  by (simp add: SIZE_IN_ELS_def SIZE_IN_BITS_def EL_SIZE_IN_BITS_def mult.commute
      carry_test_previous)

theorem operator_pluseq_uint_value_witness:
  "LENGTH(64) \<in> {8, 16, 32, 64 :: nat}
   \<and> (\<exists>el'. operator_pluseq_uint True (0xFFFFFFFFFFFFFFFF :: 64 word) [1, 0, 7] = Inr el'
         \<and> SIZE_IN_ELS el' = SIZE_IN_ELS [1, 0, 7]
         \<and> value_of el' = (value_of [1, 0, 7] + unat (0xFFFFFFFFFFFFFFFF :: 64 word))
              mod 2 ^ SIZE_IN_BITS [1, 0, 7])"
  using operator_pluseq_uint_value [where 'b = 64 and b = "0xFFFFFFFFFFFFFFFF" and el = "[1, 0, 7]"]
  by auto




text \<open>
  C3. Multiply-assign by an operand of twice the limb width is specified to
  leave \<open>(v * b) mod 2 ^ N\<close>. On the two-limb magnitude 1 and the operand
  \<open>2 ^ 32\<close> the routine returns the magnitude 0, while \<open>(1 * 2 ^ 32) mod 2 ^ 64\<close>
  is the magnitude with limbs 0 and 1: the product with the upper half of the
  operand is taken with the limb that the step has just overwritten.
\<close>

theorem operator_muleq_uint_double_limb_defect:
  "operator_muleq_uint True (0x100000000 :: 64 word) [1, 0] = Inr [0, 0]
   \<and> (value_of [1, 0] * unat (0x100000000 :: 64 word)) mod 2 ^ SIZE_IN_BITS [1, 0]
       = value_of [0, 1]
   \<and> value_of [0, 0] \<noteq> value_of [0, 1]"
proof -
  have z: "(4294967296 :: el_t) = 0" by simp
  show ?thesis
    by (simp add: operator_muleq_uint_def assert_unsigned_int_type_def sizeof_def sizeof_el_t_def
        muleq_limbs_def muleq_step_wide_def Let_def SIZE_IN_ELS_def SIZE_IN_BITS_def
        EL_SIZE_IN_BITS_def upt_0_2 z)
qed

text \<open>
  C4. A negative signed operand is specified to compare as less than every
  magnitude. On the magnitude 0 and the \<^verbatim>\<open>int\<close> \<open>-1\<close>, \<^verbatim>\<open>operator!=\<close> and
  \<^verbatim>\<open>operator==\<close> answer true and false, but each of the four ordering
  operators ends in the failed assertion of \<^verbatim>\<open>assert_unsigned_int_type\<close>,
  because it hands the signed operand to the unsigned routine without the
  conversion that \<^verbatim>\<open>operator!=\<close> and \<^verbatim>\<open>operator==\<close> make.
\<close>

theorem ordering_operators_signed_operand_defect:
  "sint (- 1 :: 32 word) < 0
   \<and> operator_gt False (- 1 :: 32 word) [0, 0] = Inl AssertionFailed
   \<and> operator_geq False (- 1 :: 32 word) [0, 0] = Inl AssertionFailed
   \<and> operator_lt False (- 1 :: 32 word) [0, 0] = Inl AssertionFailed
   \<and> operator_leq False (- 1 :: 32 word) [0, 0] = Inl AssertionFailed
   \<and> operator_neq False (- 1 :: 32 word) [0, 0] = Inr True
   \<and> operator_eq False (- 1 :: 32 word) [0, 0] = Inr False"
  by (simp add: ordering_signed_assert operator_neq_def operator_neq_uint_def
      operator_eq_def operator_eq_uint_def assert_unsigned_int_type_def sizeof_def sizeof_el_t_def
      to_el_t_def is_nonzero_starting_at_el_def is_zero_starting_at_el_def)

text \<open>
  C5. Constructing a magnitude from the decimal string that rendering has
  produced is specified to give the value back. On the two-limb magnitude 5
  \<^verbatim>\<open>str()\<close> returns \<open>''5''\<close>, the zero value renders as \<open>''0''\<close>, and the
  private parser \<^verbatim>\<open>set_from_str\<close> run on \<open>''5''\<close> yields the magnitude 5. But
  no magnitude can be constructed from the string: the constructor
  \<^verbatim>\<open>bui(const char *)\<close> hands the string to the member template \<^verbatim>\<open>set\<close> for
  native integers and never reaches the parser, and \<^verbatim>\<open>operator=(const char *)\<close>
  has no \<^verbatim>\<open>return\<close> statement; the compiler rejects both.
\<close>

theorem string_constructor_ill_formed_defect:
  "str [5, 0] = Inr ''5''
   \<and> str [0, 0] = Inr ''0''
   \<and> bui_from_str ''5'' = Inl IllFormed
   \<and> operator_assign_str ''5'' [0, 0] = Inl IllFormed
   \<and> set_from_str ''5'' [0, 0] = Inr [5, 0]"
proof -
  have m: "MAX_DIGITS (SIZE_IN_BITS [5, 0]) = Inr 20" "MAX_DIGITS (SIZE_IN_BITS [0, 0]) = Inr 20"
    using MAX_DIGITS_64 by (simp_all add: SIZE_IN_BITS_def SIZE_IN_ELS_def EL_SIZE_IN_BITS_def)
  have d: "decimal_digits_lsf 5 = ''5''" "decimal_digits_lsf 0 = ''0''"
    by code_simp+
  have "str [5, 0] = Inr (rev (decimal_digits_lsf (value_of [5, 0])))"
    unfolding str_def by (rule uint_to_string_fits [OF _ m(1)]) simp_all
  then have a: "str [5, 0] = Inr ''5''" using d by simp
  have "str [0, 0] = Inr (rev (decimal_digits_lsf (value_of [0, 0])))"
    unfolding str_def by (rule uint_to_string_fits [OF _ m(2)]) simp_all
  then have b: "str [0, 0] = Inr ''0''" using d by simp
  obtain r where r: "set_from_str (rev (decimal_digits_lsf 5)) [0, 0] = Inr r"
    "length r = length [0 :: el_t, 0]" "value_of r = 5"
    using set_from_str_decimal [of 5 "[0, 0]"] by auto
  have "r = [5, 0]"
    using r(2,3) by (intro value_of_inj) simp_all
  then have c: "set_from_str ''5'' [0, 0] = Inr [5, 0]" using r(1) d by simp
  show ?thesis using a b c by (simp add: bui_from_str_def operator_assign_str_def)
qed

text \<open>
  C6. For every magnitude \<open>v\<close>, every number \<open>c\<close> of whole-limb shifts by
  \<^verbatim>\<open>loshift_1el\<close> and every \<open>s\<close> with \<open>0 < s < width(limb)\<close>, the \<open>c\<close> whole-limb
  shifts followed by \<^verbatim>\<open>loshift_bits<s>\<close> leave the magnitude holding
  \<open>v div 2 ^ (c * width(limb) + s)\<close>.
\<close>

theorem loshift_composition:
  "el \<noteq> [] \<Longrightarrow> 0 < s \<Longrightarrow> s < EL_SIZE_IN_BITS \<Longrightarrow>
     SIZE_IN_ELS (loshift_bits s ((loshift_1el ^^ c) el)) = SIZE_IN_ELS el
     \<and> value_of (loshift_bits s ((loshift_1el ^^ c) el))
         = value_of el div 2 ^ (c * EL_SIZE_IN_BITS + s)"
proof -
  assume el: "el \<noteq> []" and s: "0 < s" "s < EL_SIZE_IN_BITS"
  define e where "e = (loshift_1el ^^ c) el"
  have len: "length e = length el" and v: "value_of e = value_of el div 2 ^ (32 * c)"
    using loshift_1el_funpow_value [OF el, of c] by (simp_all add: e_def)
  have ne: "e \<noteq> []" using len el by auto
  have s32: "s < 32" using s by (simp add: EL_SIZE_IN_BITS_def)
  have "value_of (loshift_bits s e) = value_of el div 2 ^ (32 * c) div 2 ^ s"
    using loshift_bits_value [OF s(1) s32 ne] v by simp
  also have "\<dots> = value_of el div (2 ^ (32 * c) * 2 ^ s)"
    by (simp only: div_mult2_eq)
  also have "\<dots> = value_of el div 2 ^ (c * EL_SIZE_IN_BITS + s)"
    by (simp add: power_add EL_SIZE_IN_BITS_def mult.commute)
  finally show ?thesis
    using loshift_bits_value [OF s(1) s32 ne] len by (simp add: e_def SIZE_IN_ELS_def)
qed

theorem loshift_composition_witness:
  "[0x12345678, 0x9ABCDEF0, 0x0F0F0F0F] \<noteq> ([] :: bui) \<and> (0 :: nat) < 5 \<and> 5 < EL_SIZE_IN_BITS
   \<and> SIZE_IN_ELS (loshift_bits 5 ((loshift_1el ^^ 1) [0x12345678, 0x9ABCDEF0, 0x0F0F0F0F]))
       = SIZE_IN_ELS [0x12345678, 0x9ABCDEF0, 0x0F0F0F0F]
   \<and> value_of (loshift_bits 5 ((loshift_1el ^^ 1) [0x12345678, 0x9ABCDEF0, 0x0F0F0F0F]))
       = value_of [0x12345678, 0x9ABCDEF0, 0x0F0F0F0F] div 2 ^ (1 * EL_SIZE_IN_BITS + 5)"
  using loshift_composition [of "[0x12345678, 0x9ABCDEF0, 0x0F0F0F0F]" 5 1]
  by (simp add: EL_SIZE_IN_BITS_def)

text \<open>
  C7. The identity of \<open>a += (-b)\<close> and \<open>a -= b\<close> for every signed \<open>b\<close> fails at
  the most negative value of a type that is not promoted: for the \<^verbatim>\<open>int\<close> \<open>b = - 2 ^ 31\<close> the negation \<open>- b\<close> is \<open>b\<close> again in
  two's complement, so that on the two-limb magnitude 0 \<open>a += (-b)\<close> subtracts
  \<open>2 ^ 31\<close> and \<open>a -= b\<close> adds it.
\<close>

theorem pluseq_negated_most_negative_counterexample:
  "operator_pluseq False (- (0x80000000 :: 32 word)) [0, 0]
     \<noteq> operator_minuseq False (0x80000000 :: 32 word) [0, 0]
   \<and> operator_pluseq False (- (0x80000000 :: 32 word)) [0, 0] = Inr [0x80000000, 0xFFFFFFFF]
   \<and> operator_minuseq False (0x80000000 :: 32 word) [0, 0] = Inr [0x80000000, 0]"
  by code_simp

text \<open>
  C7, with the operand restricted. Let \<open>b\<close> be a signed native operand and \<open>c\<close> the operand that the
  expression \<open>-b\<close> yields, of the same type or, after integer promotion, of a
  wider one, whenever that type holds the number \<open>- b\<close>. Then \<open>a += c\<close> and
  \<open>a -= b\<close> return the same magnitude, which holds \<open>(a - b) mod 2 ^ N\<close>. This
  covers every \<open>b\<close> but the most negative value of \<^verbatim>\<open>int\<close> or of a wider type.
\<close>

theorem pluseq_negated_eq_minuseq:
  fixes b :: "'b::len word" and c :: "'c::len word"
  assumes "LENGTH('b) \<in> {8, 16, 32, 64}" and "LENGTH('c) \<in> {8, 16, 32, 64}"
    and "sint c = - sint b"
  shows "operator_pluseq False c a = operator_minuseq False b a
     \<and> (\<exists>r. operator_minuseq False b a = Inr r \<and> SIZE_IN_ELS r = SIZE_IN_ELS a
          \<and> int (value_of r) = (int (value_of a) - sint b) mod 2 ^ SIZE_IN_BITS a)"
proof -
  obtain r1 where r1: "operator_pluseq False c a = Inr r1" "length r1 = length a"
    "int (value_of r1) = (int (value_of a) + sint c) mod 2 ^ (32 * length a)"
    using operator_pluseq_signed [OF assms(2), of c a] by blast
  obtain r2 where r2: "operator_minuseq False b a = Inr r2" "length r2 = length a"
    "int (value_of r2) = (int (value_of a) - sint b) mod 2 ^ (32 * length a)"
    using operator_minuseq_signed [OF assms(1), of b a] by blast
  have "int (value_of r1) = int (value_of r2)"
    using r1(3) r2(3) assms(3) by simp
  then have "r1 = r2"
    using r1(2) r2(2) by (intro value_of_inj) simp_all
  then show ?thesis
    using r1 r2
    by (simp add: SIZE_IN_ELS_def SIZE_IN_BITS_def EL_SIZE_IN_BITS_def mult.commute)
qed

theorem pluseq_negated_eq_minuseq_witness:
  "LENGTH(8) \<in> {8, 16, 32, 64 :: nat} \<and> LENGTH(32) \<in> {8, 16, 32, 64 :: nat}
   \<and> sint (128 :: 32 word) = - sint (- 128 :: 8 word)
   \<and> operator_pluseq False (128 :: 32 word) [5, 0] = operator_minuseq False (- 128 :: 8 word) [5, 0]
   \<and> (\<exists>r. operator_minuseq False (- 128 :: 8 word) [5, 0] = Inr r
          \<and> SIZE_IN_ELS r = SIZE_IN_ELS [5, 0]
          \<and> int (value_of r) = (int (value_of [5, 0]) - sint (- 128 :: 8 word))
               mod 2 ^ SIZE_IN_BITS [5, 0])"
proof -
  have h: "sint (128 :: 32 word) = - sint (- 128 :: 8 word)" by simp
  show ?thesis
    using pluseq_negated_eq_minuseq [where 'b = 8 and 'c = 32 and b = "- 128" and c = 128
        and a = "[5, 0]"] h
    by simp
qed

text \<open>
  C8. For every magnitude \<open>a\<close> and every nonzero limb \<open>b\<close>, the modulo operator
  returns \<open>a mod b\<close> and leaves every limb of \<open>a\<close> as it was.
\<close>

theorem operator_mod_remainder_frame:
  "b \<noteq> 0 \<Longrightarrow> \<exists>r. operator_mod b el = Inr (el, r) \<and> unat r = value_of el mod unat b"
  by (rule operator_mod_correct)

theorem operator_mod_remainder_frame_witness:
  "(7 :: el_t) \<noteq> 0
   \<and> (\<exists>r. operator_mod 7 [5, 3] = Inr ([5, 3], r) \<and> unat r = value_of [5, 3] mod unat (7 :: el_t))"
  using operator_mod_remainder_frame [of 7 "[5, 3]"] by simp

text \<open>
  C9. The bit length of a magnitude is specified as 0 when all limbs are zero
  and otherwise as the index of the highest nonzero limb times the limb width
  plus the bit length of that limb, which is \<open>floor (log2 v) + 1\<close>. On the
  two-limb magnitude 5 that is \<open>0 * 32 + 3 = 3\<close>, and the helper for native
  values does return 3 on the limb 5 and the width 32 on the limb 0. The member
  \<^verbatim>\<open>bui::bitlen()\<close> returns nothing: its call \<^verbatim>\<open>bitlen(el[i])\<close> names the
  member itself, which takes no argument, and the compiler rejects it.
\<close>

theorem bui_bitlen_ill_formed_defect:
  "bui_bitlen [5, 0] = Inl IllFormed
   \<and> value_of [5, 0] = 5
   \<and> [5, 0 :: el_t] ! 1 = 0
   \<and> 0 * EL_SIZE_IN_BITS + nat (bitlen True ([5, 0 :: el_t] ! 0)) = 3
   \<and> \<lfloor>log 2 (real (value_of [5, 0]))\<rfloor> + 1 = 3
   \<and> bitlen True (0 :: el_t) = 32
   \<and> bui_bitlen [5, 0] \<noteq> Inr 3"
proof -
  have c: "builtin_clz (5 :: el_t) = 29"
    by code_simp
  have b: "bitlen True (5 :: el_t) = 3" "bitlen True (0 :: el_t) = 32"
    using bitlen_eq [of "5 :: el_t"] bitlen_eq [of "0 :: el_t"] c by simp_all
  have "\<lfloor>log 2 (real 5)\<rfloor> = int 2"
    using floor_log_nat_eq_if [of 2 2 5] by simp
  then have l: "\<lfloor>log 2 (real (value_of [5, 0]))\<rfloor> + 1 = 3" by simp
  show ?thesis using b l by (simp add: bui_bitlen_def EL_SIZE_IN_BITS_def)
qed

text \<open>
  C10. Every write into the buffer of \<^verbatim>\<open>MAX_DIGITS + 1\<close> characters is
  specified to be within bounds, \<^verbatim>\<open>MAX_DIGITS\<close> being the ceiling of
  \<open>N * log10 2\<close>. The source computes the product in double precision. For
  \<open>N = 1233278784\<close>, which is 38539962 limbs, the product \<open>N * log10 2\<close> lies
  above 371253907 by about \<open>10 ^ - 9\<close>, but the rounded product of the source
  is the whole number 371253907: \<^verbatim>\<open>MAX_DIGITS\<close> is 371253907 and the buffer has
  371253908 characters. The magnitude with all bits set has more than 371253907
  digits, and rendering it writes behind the end of the buffer.
\<close>

theorem uint_to_string_buffer_defect:
  "SIZE_IN_BITS (replicate 38539962 0xFFFFFFFF) = 1233278784
   \<and> MAX_DIGITS 1233278784 = Inr 371253907
   \<and> real 371253907 < real 1233278784 * log 10 2
   \<and> 371253907 < length (decimal_digits_lsf (value_of (replicate 38539962 0xFFFFFFFF)))
   \<and> uint_to_string (replicate 38539962 0xFFFFFFFF) = Inl BufferOverflow"
proof -
  have h: "(0xFFFFFFFF :: el_t) = - 1" by simp
  have "SIZE_IN_BITS (replicate 38539962 (0xFFFFFFFF :: el_t)) = 1233278784"
    by (simp add: SIZE_IN_BITS_def SIZE_IN_ELS_def EL_SIZE_IN_BITS_def)
  then show ?thesis
    unfolding h
    using MAX_DIGITS_1233278784 MAX_DIGITS_below_log uint_to_string_all_ones_overflow
    by blast
qed

end
